theory Spec2Isabelle
  imports Complex_Main
begin

section \<open>The live voice session of \<open>src/components/LiveVoiceOverlay.tsx\<close>\<close>

text \<open>
  The component keeps React state (\<open>status\<close>, the two transcripts, \<open>isMuted\<close>), four refs
  (the two audio contexts, \<open>nextStartTimeRef\<close>, \<open>sourcesRef\<close>) and, inside its mount effect,
  the closure variables \<open>isActive\<close>, \<open>stream\<close> and \<open>sessionPromise\<close>. Every callback of the
  source is a function from the state before to the state after. What the callbacks do to
  the outside world (calls on the session, calls of \<open>onCommand\<close> and \<open>onClose\<close>,
  \<open>source.start\<close>, \<open>s.stop\<close>) is appended to logs kept in the same record. The message
  handlers that are suspended at the \<open>await\<close> of line 72 are kept there too.

  Times are seconds. The device time \<open>currentTime\<close> is given by the platform; the playback
  clock \<open>nextStartTimeRef\<close> and the duration of a buffer are JavaScript numbers, that is,
  IEEE 754 binary64 values, and the sum of line 77 is rounded as such a value is.
\<close>

subsection \<open>Double arithmetic\<close>

text \<open>
  A JavaScript number that the clock can hold: a real number or an infinity. (Not-a-number
  cannot arise: the clock is only ever compared with, and added to, finite values.)
\<close>

datatype double = Finite real | PosInf | NegInf

text \<open>Rounding to the nearest integer, ties to the even one.\<close>

definition round_even :: "real \<Rightarrow> int" where
  "round_even r =
     (let f = \<lfloor>r\<rfloor>
      in if r - of_int f < 1 / 2 then f
         else if 1 / 2 < r - of_int f then f + 1
         else if even f then f else f + 1)"

text \<open>
  The binary64 values around \<open>x\<close> are the multiples of two to the power \<open>ulp_exponent x\<close>:
  52 below the exponent of \<open>x\<close>, and never below the exponent of the subnormal numbers.
  \<open>fl x\<close> is the nearest of them, ties to even. It is the binary64 value nearest to \<open>x\<close>
  as long as that value is finite.
\<close>

definition ulp_exponent :: "real \<Rightarrow> int" where
  "ulp_exponent x = max \<lfloor>log 2 \<bar>x\<bar>\<rfloor> (- 1022) - 52"

definition fl :: "real \<Rightarrow> real" where
  "fl x =
     (if x = 0 then 0
      else of_int (round_even (x / 2 powr of_int (ulp_exponent x))) * 2 powr of_int (ulp_exponent x))"

text \<open>
  \<open>clock + d\<close> as line 77 computes it: the rounded sum, an infinity when the rounded sum is
  beyond the largest binary64 value.
\<close>

definition clock_add :: "double \<Rightarrow> real \<Rightarrow> double" where
  "clock_add c d =
     (case c of
        Finite x \<Rightarrow>
          (let r = fl (x + d)
           in if 2 ^ 1024 \<le> r then PosInf else if r \<le> - (2 ^ 1024) then NegInf else Finite r)
      | PosInf \<Rightarrow> PosInf
      | NegInf \<Rightarrow> NegInf)"

text \<open>\<open>Math.max(clock, now)\<close> of line 71, which does not round.\<close>

definition clock_max :: "double \<Rightarrow> real \<Rightarrow> double" where
  "clock_max c now =
     (case c of Finite x \<Rightarrow> Finite (max x now) | PosInf \<Rightarrow> PosInf | NegInf \<Rightarrow> Finite now)"

fun clock_le :: "double \<Rightarrow> double \<Rightarrow> bool" where
  "clock_le NegInf _ = True"
| "clock_le _ PosInf = True"
| "clock_le (Finite x) (Finite y) = (x \<le> y)"
| "clock_le _ _ = False"

text \<open>
  The argument of \<open>source.start\<close>: a negative time is a RangeError and an infinity a
  TypeError; otherwise the source starts at that time.
\<close>

definition startable :: "double \<Rightarrow> real option" where
  "startable c = (case c of Finite x \<Rightarrow> (if 0 \<le> x then Some x else None) | _ \<Rightarrow> None)"

subsection \<open>Data\<close>

datatype status = Connecting | Listening | Speaking | Error

datatype audio_context = Running | Closed

datatype media_stream = Live | Ended

text \<open>
  An \<open>AudioBuffer\<close>: its \<open>duration\<close> is its length in sample frames divided by its sample
  rate, a rounded division of two numbers. (The sample rate of a buffer is positive and
  its length is an unsigned 32-bit number, so the quotient is far from any overflow.)
\<close>

record audio_buffer =
  buf_length :: nat
  buf_sampleRate :: nat

definition duration :: "audio_buffer \<Rightarrow> real" where
  "duration b = fl (real (buf_length b) / real (buf_sampleRate b))"

text \<open>
  An \<open>AudioBufferSourceNode\<close> after \<open>source.start(t)\<close>: a fresh identity, its buffer and the
  time given to \<open>start\<close>.
\<close>

record source_node =
  node_id :: nat
  buffer :: audio_buffer
  started_at :: real

text \<open>
  The end of a source as the code computes it at line 77, and its start plus its duration
  as real numbers.
\<close>

definition ends_at :: "source_node \<Rightarrow> double" where
  "ends_at s = clock_add (Finite (started_at s)) (duration (buffer s))"

definition exact_end :: "source_node \<Rightarrow> real" where
  "exact_end s = started_at s + duration (buffer s)"

text \<open>
  What the component does to the output device, in order: a \<open>source.start\<close>, or the
  \<open>s.stop()\<close> of every source of \<open>sourcesRef\<close> at line 86.
\<close>

datatype playback_event = Started source_node | Stopped "source_node list"

datatype blob = Blob (blob_data: string) (blob_mimeType: string)

datatype jsval = JUndefined | JBool bool | JNum int | JStr string

type_synonym args = "(string \<times> jsval) list"

record function_response =
  fr_id :: string
  fr_name :: string
  fr_result :: string

datatype session_call =
    SendRealtimeInput blob
  | SendToolResponse function_response
  | SessionClose

text \<open>
  The callbacks given to \<open>sessionPromise.then\<close>: the deferred close of line 140 reads
  \<open>isActive\<close> when it runs; the two senders carry the value they captured.
\<close>

datatype then_cb =
    CloseIfInactive
  | ThenSendAudio blob
  | ThenSendTool function_response

datatype promise_state = Pending "then_cb list" | Resolved | Rejected

subsection \<open>Inbound messages\<close>

datatype transcription = Transcription (tr_text: "string option")

datatype inline_data = InlineData (inline_payload: "string option")

datatype part = Part (inlineData: "inline_data option")

datatype model_turn = ModelTurn (parts: "part list option")

record server_content =
  inputTranscription :: "transcription option"
  outputTranscription :: "transcription option"
  modelTurn :: "model_turn option"
  interrupted :: bool
  turnComplete :: bool

text \<open>A function call of the model; its \<open>args\<close> may be missing.\<close>

record function_call =
  fc_id :: string
  fc_name :: string
  fc_args :: "args option"

datatype tool_call = ToolCall (functionCalls: "function_call list option")

record live_server_message =
  serverContent :: "server_content option"
  toolCall :: "tool_call option"

subsection \<open>The host and the platform\<close>

datatype completion = Returns jsval | Throws

text \<open>
  \<open>createBlob\<close>, \<open>decode\<close> and \<open>decodeAudioData\<close> come from \<open>services/audioUtils\<close>, which is
  not part of the sources at hand, and \<open>onCommand\<close> is a prop: all are parameters.
  \<open>decodeAudioData env d\<close> stands for \<open>decodeAudioData(decode(d), ctx, 24000, 1)\<close>; \<open>None\<close> is
  a rejected promise or a throw.
\<close>

record host_env =
  createBlob :: "real list \<Rightarrow> blob"
  decodeAudioData :: "string \<Rightarrow> audio_buffer option"
  onCommand :: "string \<Rightarrow> args option \<Rightarrow> completion"

subsection \<open>The state\<close>

record overlay =
  status :: status
  userTranscript :: string
  aiTranscript :: string
  isMuted :: bool
  audioContextRef :: "audio_context option"
  outputAudioContextRef :: "audio_context option"
  nextStartTimeRef :: double
  sourcesRef :: "source_node list"
  effectIsMuted :: bool
  isActive :: bool
  awaitingUserMedia :: bool
  stream :: "media_stream option"
  sessionPromise :: "promise_state option"
  processorInstalled :: bool
  sessionCalls :: "session_call list"
  commandCalls :: "(string \<times> args option) list"
  playbackLog :: "playback_event list"
  pendingDecodes :: "(live_server_message \<times> string) list"
  onCloseCalls :: nat
  nodeCounter :: nat

text \<open>
  The state of the first render (lines 12 to 20): the \<open>useState\<close> and \<open>useRef\<close> initial
  values, the effect not yet run.
\<close>

definition initial :: overlay where
  "initial = \<lparr> status = Connecting, userTranscript = [], aiTranscript = [],
     isMuted = False, audioContextRef = None, outputAudioContextRef = None,
     nextStartTimeRef = Finite 0, sourcesRef = [], effectIsMuted = False,
     isActive = False, awaitingUserMedia = False, stream = None, sessionPromise = None,
     processorInstalled = False, sessionCalls = [], commandCalls = [],
     playbackLog = [], pendingDecodes = [], onCloseCalls = 0, nodeCounter = 0 \<rparr>"

subsection \<open>The session promise\<close>

definition run_cb :: "then_cb \<Rightarrow> overlay \<Rightarrow> overlay" where
  "run_cb cb st =
     (case cb of
        CloseIfInactive \<Rightarrow>
          (if \<not> isActive st then st\<lparr>sessionCalls := sessionCalls st @ [SessionClose]\<rparr> else st)
      | ThenSendAudio b \<Rightarrow> st\<lparr>sessionCalls := sessionCalls st @ [SendRealtimeInput b]\<rparr>
      | ThenSendTool r \<Rightarrow> st\<lparr>sessionCalls := sessionCalls st @ [SendToolResponse r]\<rparr>)"

text \<open>
  \<open>sessionPromise.then(cb)\<close>: queued while the promise is pending, run once it has
  resolved, dropped when it was rejected.
\<close>

definition promise_then :: "then_cb \<Rightarrow> overlay \<Rightarrow> overlay" where
  "promise_then cb st =
     (case sessionPromise st of
        None \<Rightarrow> st
      | Some (Pending cbs) \<Rightarrow> st\<lparr>sessionPromise := Some (Pending (cbs @ [cb]))\<rparr>
      | Some Resolved \<Rightarrow> run_cb cb st
      | Some Rejected \<Rightarrow> st)"

text \<open>The promise resolves: the queued callbacks run in the order of their registration.\<close>

definition session_resolved :: "overlay \<Rightarrow> overlay" where
  "session_resolved st =
     (case sessionPromise st of
        Some (Pending cbs) \<Rightarrow> foldl (\<lambda>s cb. run_cb cb s) (st\<lparr>sessionPromise := Some Resolved\<rparr>) cbs
      | _ \<Rightarrow> st)"

definition session_rejected :: "overlay \<Rightarrow> overlay" where
  "session_rejected st =
     (case sessionPromise st of
        Some (Pending cbs) \<Rightarrow> st\<lparr>sessionPromise := Some Rejected\<rparr>
      | _ \<Rightarrow> st)"

subsection \<open>The mount effect\<close>

text \<open>
  Lines 22 to 32, up to the \<open>await\<close> of \<open>getUserMedia\<close>. The effect has no dependencies, so
  only the effect of the first render ever runs, and every closure made inside it sees the
  \<open>isMuted\<close> of that render, the initial value of line 15: \<open>effectIsMuted\<close>.
\<close>

definition startSession :: "overlay \<Rightarrow> overlay" where
  "startSession st =
     st\<lparr>effectIsMuted := isMuted initial, isActive := True,
        audioContextRef := Some Running, outputAudioContextRef := Some Running,
        awaitingUserMedia := True\<rparr>"

text \<open>Lines 32 to 142: the stream arrives, \<open>connect\<close> is called, the deferred close is chained.\<close>

definition getUserMedia_resolved :: "overlay \<Rightarrow> overlay" where
  "getUserMedia_resolved st =
     st\<lparr>awaitingUserMedia := False, stream := Some Live,
        sessionPromise := Some (Pending [CloseIfInactive])\<rparr>"

text \<open>Lines 143 to 146: the \<open>catch\<close>.\<close>

definition getUserMedia_rejected :: "overlay \<Rightarrow> overlay" where
  "getUserMedia_rejected st = st\<lparr>awaitingUserMedia := False, status := Error\<rparr>"

text \<open>Lines 151 to 156.\<close>

definition close_context :: "audio_context option \<Rightarrow> audio_context option" where
  "close_context c = (case c of None \<Rightarrow> None | Some _ \<Rightarrow> Some Closed)"

definition cleanup :: "overlay \<Rightarrow> overlay" where
  "cleanup st =
     st\<lparr>isActive := False,
        audioContextRef := close_context (audioContextRef st),
        outputAudioContextRef := close_context (outputAudioContextRef st)\<rparr>"

text \<open>Line 205.\<close>

definition toggleMute :: "overlay \<Rightarrow> overlay" where
  "toggleMute st = st\<lparr>isMuted := \<not> isMuted st\<rparr>"

subsection \<open>The transport callbacks\<close>

text \<open>Lines 37 to 56.\<close>

definition onopen :: "overlay \<Rightarrow> overlay" where
  "onopen st =
     (if \<not> isActive st then st
      else st\<lparr>status := Listening, processorInstalled := True\<rparr>)"

text \<open>Lines 44 to 52. The \<open>isMuted\<close> read here is the one the effect closed over.\<close>

definition onaudioprocess :: "host_env \<Rightarrow> real list \<Rightarrow> overlay \<Rightarrow> overlay" where
  "onaudioprocess env inputData st =
     (if effectIsMuted st then st
      else promise_then (ThenSendAudio (createBlob env inputData)) st)"

text \<open>Line 109 and line 110.\<close>

definition onerror :: "overlay \<Rightarrow> overlay" where
  "onerror st = st\<lparr>status := Error\<rparr>"

definition onclose :: "overlay \<Rightarrow> overlay" where
  "onclose st = st\<lparr>onCloseCalls := Suc (onCloseCalls st)\<rparr>"

text \<open>Lines 79 to 82.\<close>

definition onended :: "source_node \<Rightarrow> overlay \<Rightarrow> overlay" where
  "onended source st =
     (let st1 = st\<lparr>sourcesRef := filter (\<lambda>s. s \<noteq> source) (sourcesRef st)\<rparr>
      in if sourcesRef st1 = [] then st1\<lparr>status := Listening\<rparr> else st1)"

subsection \<open>The message handler\<close>

text \<open>
  A step of the handler either completes or throws; a throw (or a rejected \<open>await\<close>) ends
  the \<open>async\<close> handler there, and what it had written so far stays.
\<close>

datatype handler_result = is_Done: Done overlay | Thrown overlay

text \<open>Lines 60 to 65. A missing \<open>text\<close> is concatenated as the string \<open>undefined\<close>.\<close>

definition js_text :: "string option \<Rightarrow> string" where
  "js_text t = (case t of None \<Rightarrow> ''undefined'' | Some s \<Rightarrow> s)"

definition append_transcripts :: "live_server_message \<Rightarrow> overlay \<Rightarrow> overlay" where
  "append_transcripts message st =
     (case serverContent message of
        None \<Rightarrow> st
      | Some sc \<Rightarrow>
          (let st1 = (case inputTranscription sc of
                        None \<Rightarrow> st
                      | Some tr \<Rightarrow> st\<lparr>userTranscript := userTranscript st @ '' '' @ js_text (tr_text tr)\<rparr>)
           in case outputTranscription sc of
                None \<Rightarrow> st1
              | Some tr \<Rightarrow> st1\<lparr>aiTranscript := aiTranscript st1 @ '' '' @ js_text (tr_text tr)\<rparr>))"

text \<open>
  Line 67: \<open>message.serverContent?.modelTurn?.parts[0]?.inlineData?.data\<close>. \<open>Inl ()\<close> is the
  TypeError of indexing a missing \<open>parts\<close>; \<open>Inr None\<close> is \<open>undefined\<close>.
\<close>

definition audioData :: "live_server_message \<Rightarrow> unit + string option" where
  "audioData message =
     (case serverContent message of
        None \<Rightarrow> Inr None
      | Some sc \<Rightarrow>
          (case modelTurn sc of
             None \<Rightarrow> Inr None
           | Some mt \<Rightarrow>
               (case parts mt of
                  None \<Rightarrow> Inl ()
                | Some [] \<Rightarrow> Inr None
                | Some (p # _) \<Rightarrow>
                    (case inlineData p of
                       None \<Rightarrow> Inr None
                     | Some d \<Rightarrow> Inr (inline_payload d)))))"

text \<open>
  Lines 67 to 72, up to the \<open>await\<close>, with \<open>now\<close> the \<open>currentTime\<close> of the output context
  read at line 71. The empty string is falsy, as is a null context. With audio to decode
  the handler is suspended, the payload in hand.
\<close>

datatype begin_result = is_NoAudio: NoAudio overlay | Awaiting overlay string | BeginThrown overlay

definition schedule_begin :: "real \<Rightarrow> live_server_message \<Rightarrow> overlay \<Rightarrow> begin_result" where
  "schedule_begin now message st =
     (case audioData message of
        Inl _ \<Rightarrow> BeginThrown st
      | Inr None \<Rightarrow> NoAudio st
      | Inr (Some d) \<Rightarrow>
          (if d = [] \<or> outputAudioContextRef st = None then NoAudio st
           else Awaiting (st\<lparr>status := Speaking,
                               nextStartTimeRef := clock_max (nextStartTimeRef st) now\<rparr>) d))"

text \<open>
  Lines 72 to 83, once the decoding of payload \<open>d\<close> has settled: the source is started at
  the clock as it stands now, and the clock is advanced by the duration of the buffer.
\<close>

definition schedule_resume :: "host_env \<Rightarrow> string \<Rightarrow> overlay \<Rightarrow> handler_result" where
  "schedule_resume env d st =
     (case decodeAudioData env d of
        None \<Rightarrow> Thrown st
      | Some buf \<Rightarrow>
          (case startable (nextStartTimeRef st) of
             None \<Rightarrow> Thrown st
           | Some t \<Rightarrow>
               (let source = \<lparr>node_id = nodeCounter st, buffer = buf, started_at = t\<rparr>
                in Done (st\<lparr>nodeCounter := Suc (nodeCounter st),
                              playbackLog := playbackLog st @ [Started source],
                              nextStartTimeRef := clock_add (nextStartTimeRef st) (duration buf),
                              sourcesRef := sourcesRef st @ [source]\<rparr>))))"

text \<open>Lines 67 to 83 when the decoding settles before anything else happens.\<close>

definition schedule_audio ::
  "host_env \<Rightarrow> real \<Rightarrow> live_server_message \<Rightarrow> overlay \<Rightarrow> handler_result" where
  "schedule_audio env now message st =
     (case schedule_begin now message st of
        BeginThrown st1 \<Rightarrow> Thrown st1
      | NoAudio st1 \<Rightarrow> Done st1
      | Awaiting st1 d \<Rightarrow> schedule_resume env d st1)"

text \<open>Lines 85 to 90.\<close>

definition interrupts :: "live_server_message \<Rightarrow> bool" where
  "interrupts message =
     (case serverContent message of None \<Rightarrow> False | Some sc \<Rightarrow> interrupted sc)"

definition handle_interrupted :: "live_server_message \<Rightarrow> overlay \<Rightarrow> overlay" where
  "handle_interrupted message st =
     (if interrupts message
      then st\<lparr>playbackLog := playbackLog st @ [Stopped (sourcesRef st)],
              sourcesRef := [],
              nextStartTimeRef := Finite 0,
              status := Listening\<rparr>
      else st)"

text \<open>Lines 92 to 102. The loop ends at the first call of \<open>onCommand\<close> that throws.\<close>

definition ack :: "function_call \<Rightarrow> function_response" where
  "ack fc = \<lparr>fr_id = fc_id fc, fr_name = fc_name fc, fr_result = ''ok''\<rparr>"

fun dispatch_calls :: "host_env \<Rightarrow> function_call list \<Rightarrow> overlay \<Rightarrow> handler_result" where
  "dispatch_calls env [] st = Done st"
| "dispatch_calls env (fc # fcs) st =
     (let st1 = st\<lparr>commandCalls := commandCalls st @ [(fc_name fc, fc_args fc)]\<rparr>
      in case onCommand env (fc_name fc) (fc_args fc) of
           Throws \<Rightarrow> Thrown st1
         | Returns _ \<Rightarrow> dispatch_calls env fcs (promise_then (ThenSendTool (ack fc)) st1))"

definition handle_toolCall :: "host_env \<Rightarrow> live_server_message \<Rightarrow> overlay \<Rightarrow> handler_result" where
  "handle_toolCall env message st =
     (case toolCall message of
        None \<Rightarrow> Done st
      | Some tc \<Rightarrow>
          (case functionCalls tc of
             None \<Rightarrow> Thrown st
           | Some fcs \<Rightarrow> dispatch_calls env fcs st))"

text \<open>Lines 104 to 107.\<close>

definition completes_turn :: "live_server_message \<Rightarrow> bool" where
  "completes_turn message =
     (case serverContent message of None \<Rightarrow> False | Some sc \<Rightarrow> turnComplete sc)"

definition handle_turnComplete :: "live_server_message \<Rightarrow> overlay \<Rightarrow> overlay" where
  "handle_turnComplete message st =
     (if completes_turn message then st\<lparr>userTranscript := [], aiTranscript := []\<rparr> else st)"

text \<open>Lines 85 to 107, the rest of the handler after the audio.\<close>

definition finish_message :: "host_env \<Rightarrow> live_server_message \<Rightarrow> overlay \<Rightarrow> overlay" where
  "finish_message env message st =
     (case handle_toolCall env message (handle_interrupted message st) of
        Thrown st4 \<Rightarrow> st4
      | Done st4 \<Rightarrow> handle_turnComplete message st4)"

text \<open>
  Lines 57 to 72: the handler from its call to its end or, with audio to decode, to its
  suspension at the \<open>await\<close>. A suspended handler waits in \<open>pendingDecodes\<close>.
\<close>

definition onmessage_begin ::
  "host_env \<Rightarrow> real \<Rightarrow> live_server_message \<Rightarrow> overlay \<Rightarrow> overlay" where
  "onmessage_begin env now message st =
     (if \<not> isActive st then st
      else
        (case schedule_begin now message (append_transcripts message st) of
           BeginThrown st2 \<Rightarrow> st2
         | NoAudio st2 \<Rightarrow> finish_message env message st2
         | Awaiting st2 d \<Rightarrow> st2\<lparr>pendingDecodes := pendingDecodes st2 @ [(message, d)]\<rparr>))"

text \<open>
  Lines 72 to 107: a suspended handler goes on, in the state as it is by then. It does
  not look at \<open>isActive\<close> again.
\<close>

definition onmessage_resume ::
  "host_env \<Rightarrow> live_server_message \<Rightarrow> string \<Rightarrow> overlay \<Rightarrow> overlay" where
  "onmessage_resume env message d st =
     (case schedule_resume env d st of
        Thrown st2 \<Rightarrow> st2
      | Done st2 \<Rightarrow> finish_message env message st2)"

text \<open>The decoding awaited by the \<open>k\<close>-th suspended handler settles.\<close>

definition decode_settled :: "host_env \<Rightarrow> nat \<Rightarrow> overlay \<Rightarrow> overlay" where
  "decode_settled env k st =
     (if k < length (pendingDecodes st)
      then onmessage_resume env (fst (pendingDecodes st ! k)) (snd (pendingDecodes st ! k))
             (st\<lparr>pendingDecodes := take k (pendingDecodes st) @ drop (Suc k) (pendingDecodes st)\<rparr>)
      else st)"

text \<open>
  Lines 57 to 108 for a message whose decoding, if it has any, settles before anything
  else happens: the handler from its call to its end.
\<close>

definition onmessage :: "host_env \<Rightarrow> real \<Rightarrow> live_server_message \<Rightarrow> overlay \<Rightarrow> overlay" where
  "onmessage env now message st =
     (if \<not> isActive st then st
      else
        (case schedule_audio env now message (append_transcripts message st) of
           Thrown st2 \<Rightarrow> st2
         | Done st2 \<Rightarrow> finish_message env message st2))"

subsection \<open>Runs\<close>

text \<open>
  The effect runs once, when the overlay mounts: a run starts from \<open>mounted\<close>. The events
  are what can happen to a mounted overlay. A message is an event when its handler is
  called, and the settling of each decoding is an event of its own: other events can come
  in between, and decodings may settle in any order. An event that cannot occur in the
  state at hand (a second answer of \<open>getUserMedia\<close>, a callback of a session that was never
  requested, the processor firing before it is installed, a decoding that nobody awaits)
  leaves the state as it is.
\<close>

definition mounted :: overlay where
  "mounted = startSession initial"

datatype event =
    GetUserMediaResolved
  | GetUserMediaRejected
  | Onopen
  | SessionResolved
  | SessionRejected
  | Onaudioprocess "real list"
  | Message real live_server_message
  | DecodeSettled nat
  | Onended source_node
  | Onerror
  | Onclose
  | ToggleMute
  | Cleanup

definition step :: "host_env \<Rightarrow> event \<Rightarrow> overlay \<Rightarrow> overlay" where
  "step env ev st =
     (case ev of
        GetUserMediaResolved \<Rightarrow> (if awaitingUserMedia st then getUserMedia_resolved st else st)
      | GetUserMediaRejected \<Rightarrow> (if awaitingUserMedia st then getUserMedia_rejected st else st)
      | Onopen \<Rightarrow> (if sessionPromise st = None then st else onopen st)
      | SessionResolved \<Rightarrow> session_resolved st
      | SessionRejected \<Rightarrow> session_rejected st
      | Onaudioprocess inputData \<Rightarrow>
          (if processorInstalled st then onaudioprocess env inputData st else st)
      | Message now message \<Rightarrow>
          (if sessionPromise st = None then st else onmessage_begin env now message st)
      | DecodeSettled k \<Rightarrow> decode_settled env k st
      | Onended source \<Rightarrow> onended source st
      | Onerror \<Rightarrow> (if sessionPromise st = None then st else onerror st)
      | Onclose \<Rightarrow> (if sessionPromise st = None then st else onclose st)
      | ToggleMute \<Rightarrow> toggleMute st
      | Cleanup \<Rightarrow> cleanup st)"

definition run :: "host_env \<Rightarrow> event list \<Rightarrow> overlay \<Rightarrow> overlay" where
  "run env evs st = foldl (\<lambda>s ev. step env ev s) st evs"


subsection \<open>The host of \<open>src/App.tsx\<close>\<close>

text \<open>
  Lines 56 to 65 of \<open>App.tsx\<close>, the handler the application passes as \<open>onCommand\<close>. What it
  does to the application's own state is outside the overlay; what matters to the overlay
  is whether the call returns: \<open>args.enabled\<close> throws a TypeError when \<open>args\<close> is missing.
\<close>

definition handleVoiceCommand :: "string \<Rightarrow> args option \<Rightarrow> completion" where
  "handleVoiceCommand command a =
     (if command = ''createNewChat'' then Returns JUndefined
      else if command = ''toggleSearch''
        then (case a of None \<Rightarrow> Throws | Some _ \<Rightarrow> Returns JUndefined)
      else Returns JUndefined)"

subsection \<open>Observations\<close>

fun the_state :: "handler_result \<Rightarrow> overlay" where
  "the_state (Done st) = st"
| "the_state (Thrown st) = st"

fun begin_state :: "begin_result \<Rightarrow> overlay" where
  "begin_state (NoAudio st) = st"
| "begin_state (Awaiting st d) = st"
| "begin_state (BeginThrown st) = st"

text \<open>
  The playback log is in order when each source that was started right after another one,
  with no stop in between, starts no earlier than the end the code computed for that one.
\<close>

fun chained :: "playback_event list \<Rightarrow> bool" where
  "chained [] = True"
| "chained (Stopped ss # rest) = chained rest"
| "chained [Started a] = True"
| "chained (Started a # Stopped ss # rest) = chained rest"
| "chained (Started a # Started b # rest) =
     (clock_le (ends_at a) (Finite (started_at b)) \<and> chained (Started b # rest))"


text \<open>
  The clock has not fallen behind the playback: when the last thing done to the output
  device was the start of a source, the clock is at or after the end computed for it.
\<close>

fun last_started :: "playback_event list \<Rightarrow> source_node option" where
  "last_started [] = None"
| "last_started [Started a] = Some a"
| "last_started [Stopped _] = None"
| "last_started (_ # e # es) = last_started (e # es)"

definition clock_after :: "overlay \<Rightarrow> bool" where
  "clock_after st =
     (case last_started (playbackLog st) of
        Some a \<Rightarrow> clock_le (ends_at a) (nextStartTimeRef st)
      | None \<Rightarrow> True)"

definition in_order :: "overlay \<Rightarrow> bool" where
  "in_order st = (chained (playbackLog st) \<and> clock_after st)"


text \<open>The tool responses and the audio among the calls made on the session.\<close>

fun tool_responses_of :: "session_call list \<Rightarrow> function_response list" where
  "tool_responses_of [] = []"
| "tool_responses_of (SendToolResponse r # cs) = r # tool_responses_of cs"
| "tool_responses_of (_ # cs) = tool_responses_of cs"

definition tool_responses :: "overlay \<Rightarrow> function_response list" where
  "tool_responses st = tool_responses_of (sessionCalls st)"

definition is_audio_call :: "session_call \<Rightarrow> bool" where
  "is_audio_call c = (case c of SendRealtimeInput _ \<Rightarrow> True | _ \<Rightarrow> False)"

definition is_audio_cb :: "then_cb \<Rightarrow> bool" where
  "is_audio_cb cb = (case cb of ThenSendAudio _ \<Rightarrow> True | _ \<Rightarrow> False)"

text \<open>
  The calls of a batch on which the host handler returns, up to the first on which it
  throws; the calls the loop reaches, that one included.
\<close>

definition returns_on :: "host_env \<Rightarrow> function_call \<Rightarrow> bool" where
  "returns_on env fc = (onCommand env (fc_name fc) (fc_args fc) \<noteq> Throws)"

definition served :: "host_env \<Rightarrow> function_call list \<Rightarrow> function_call list" where
  "served env fcs = takeWhile (returns_on env) fcs"

definition attempted :: "host_env \<Rightarrow> function_call list \<Rightarrow> function_call list" where
  "attempted env fcs = take (Suc (length (served env fcs))) fcs"

definition call_of :: "function_call \<Rightarrow> string \<times> args option" where
  "call_of fc = (fc_name fc, fc_args fc)"

definition thens :: "then_cb list \<Rightarrow> overlay \<Rightarrow> overlay" where
  "thens cbs st = foldl (\<lambda>s cb. promise_then cb s) st cbs"

text \<open>Neither audio context is running and the microphone stream is not live.\<close>

definition devices_released :: "overlay \<Rightarrow> bool" where
  "devices_released st =
     (audioContextRef st \<noteq> Some Running \<and> outputAudioContextRef st \<noteq> Some Running \<and>
      stream st \<noteq> Some Live)"

subsection \<open>Concrete inputs\<close>

definition empty_content :: server_content where
  "empty_content = \<lparr>inputTranscription = None, outputTranscription = None, modelTurn = None,
     interrupted = False, turnComplete = False\<rparr>"

definition content_message :: "server_content \<Rightarrow> live_server_message" where
  "content_message sc = \<lparr>serverContent = Some sc, toolCall = None\<rparr>"

definition model_fragment :: "string \<Rightarrow> live_server_message" where
  "model_fragment t =
     content_message (empty_content\<lparr>outputTranscription := Some (Transcription (Some t))\<rparr>)"

definition turn_complete_message :: live_server_message where
  "turn_complete_message = content_message (empty_content\<lparr>turnComplete := True\<rparr>)"

definition interrupted_message :: live_server_message where
  "interrupted_message = content_message (empty_content\<lparr>interrupted := True\<rparr>)"

definition audio_message :: "string \<Rightarrow> live_server_message" where
  "audio_message d =
     content_message
       (empty_content\<lparr>modelTurn := Some (ModelTurn (Some [Part (Some (InlineData (Some d)))]))\<rparr>)"

definition tool_call_message :: "function_call list \<Rightarrow> live_server_message" where
  "tool_call_message fcs = \<lparr>serverContent = None, toolCall = Some (ToolCall (Some fcs))\<rparr>"

text \<open>
  A host for the examples: the handler of \<open>App.tsx\<close>, and a decoder that makes one second
  of audio at 24 kHz of every character of the payload.
\<close>

definition env0 :: host_env where
  "env0 = \<lparr>createBlob = (\<lambda>xs. Blob (replicate (length xs) CHR ''A'') ''audio/pcm;rate=16000''),
            decodeAudioData = (\<lambda>d. Some \<lparr>buf_length = 24000 * length d, buf_sampleRate = 24000\<rparr>),
            onCommand = handleVoiceCommand\<rparr>"

text \<open>The same host with a decoder that makes a tenth of a second of every character.\<close>

definition env_tenths :: host_env where
  "env_tenths = env0\<lparr>decodeAudioData :=
     (\<lambda>d. Some \<lparr>buf_length = 2400 * length d, buf_sampleRate = 24000\<rparr>)\<rparr>"

text \<open>The session once the microphone is there, the transport is open and the promise resolved.\<close>

definition established :: overlay where
  "established = run env0 [GetUserMediaResolved, Onopen, SessionResolved] mounted"

text \<open>A batch of three calls with the ids \<open>a\<close>, \<open>b\<close>, \<open>c\<close>; the second has no \<open>args\<close>.\<close>

definition call_a :: function_call where
  "call_a = \<lparr>fc_id = ''a'', fc_name = ''createNewChat'', fc_args = Some []\<rparr>"

definition call_b :: function_call where
  "call_b = \<lparr>fc_id = ''b'', fc_name = ''toggleSearch'', fc_args = None\<rparr>"

definition call_c :: function_call where
  "call_c = \<lparr>fc_id = ''c'', fc_name = ''createNewChat'', fc_args = Some []\<rparr>"

text \<open>The same batch with the arguments of the second call present, and a call of a name
  that the session never declared.\<close>

definition call_b_ok :: function_call where
  "call_b_ok = \<lparr>fc_id = ''b'', fc_name = ''toggleSearch'', fc_args = Some [(''enabled'', JBool True)]\<rparr>"

definition call_undeclared :: function_call where
  "call_undeclared = \<lparr>fc_id = ''d'', fc_name = ''deleteEverything'', fc_args = Some []\<rparr>"

subsection \<open>Invariants of a run\<close>

text \<open>
  What a message handler has done to the session with the responses \<open>rs\<close>: chained them
  while the promise is pending, sent them once it has resolved, nothing otherwise.
\<close>

definition answered :: "overlay \<Rightarrow> overlay \<Rightarrow> function_response list \<Rightarrow> bool" where
  "answered st st' rs =
     (case sessionPromise st of
        Some (Pending old) \<Rightarrow>
          sessionPromise st' = Some (Pending (old @ map ThenSendTool rs)) \<and>
          sessionCalls st' = sessionCalls st
      | Some Resolved \<Rightarrow>
          sessionPromise st' = Some Resolved \<and>
          sessionCalls st' = sessionCalls st @ map SendToolResponse rs
      | _ \<Rightarrow> sessionPromise st' = sessionPromise st \<and> sessionCalls st' = sessionCalls st)"

text \<open>
  Before the promise has resolved: no call has been made on the session, and the deferred
  close of line 140 is the first callback chained on the promise.
\<close>

definition unresolved :: "overlay \<Rightarrow> bool" where
  "unresolved st =
     (sessionCalls st = [] \<and>
      (awaitingUserMedia st \<longrightarrow> sessionPromise st = None) \<and>
      (case sessionPromise st of
         None \<Rightarrow> True
       | Some (Pending cbs) \<Rightarrow> take 1 cbs = [CloseIfInactive]
       | Some Resolved \<Rightarrow> False
       | Some Rejected \<Rightarrow> True))"

text \<open>
  No frame has been captured: no processor is installed, no audio has been sent and none
  waits on the promise.
\<close>

definition no_capture :: "overlay \<Rightarrow> bool" where
  "no_capture st =
     (\<not> processorInstalled st \<and>
      \<not> list_ex is_audio_call (sessionCalls st) \<and>
      (case sessionPromise st of
         Some (Pending cbs) \<Rightarrow> \<not> list_ex is_audio_cb cbs
       | _ \<Rightarrow> True))"

text \<open>After a cleanup that came before the promise resolved.\<close>

definition closed_early :: "overlay \<Rightarrow> bool" where
  "closed_early st =
     (\<not> isActive st \<and>
      (awaitingUserMedia st \<longrightarrow> sessionPromise st = None) \<and>
      (case sessionPromise st of
         None \<Rightarrow> sessionCalls st = []
       | Some (Pending cbs) \<Rightarrow> sessionCalls st = [] \<and> take 1 cbs = [CloseIfInactive]
       | Some Resolved \<Rightarrow> take 1 (sessionCalls st) = [SessionClose]
       | Some Rejected \<Rightarrow> sessionCalls st = []))"

text \<open>
  The fields that no message handler writes, and the three that only the tool-call
  block of a message handler writes.
\<close>

definition untouched :: "overlay \<Rightarrow> overlay \<Rightarrow> bool" where
  "untouched st st' =
     (audioContextRef st' = audioContextRef st \<and>
      outputAudioContextRef st' = outputAudioContextRef st \<and>
      stream st' = stream st \<and> isActive st' = isActive st \<and>
      processorInstalled st' = processorInstalled st \<and>
      awaitingUserMedia st' = awaitingUserMedia st \<and>
      isMuted st' = isMuted st \<and> effectIsMuted st' = effectIsMuted st \<and>
      onCloseCalls st' = onCloseCalls st)"

definition quiet :: "overlay \<Rightarrow> overlay \<Rightarrow> bool" where
  "quiet st st' =
     (sessionPromise st' = sessionPromise st \<and> sessionCalls st' = sessionCalls st \<and>
      commandCalls st' = commandCalls st)"

text \<open>
  Three audio messages of 0.1 s, 0.7 s and 0.1 s that arrive while the device clock is
  still at 0, each decoded before the next arrives.
\<close>

definition three_buffers :: "event list" where
  "three_buffers =
     [Message 0 (audio_message ''a''), DecodeSettled 0,
      Message 0 (audio_message ''aaaaaaa''), DecodeSettled 0,
      Message 0 (audio_message ''a''), DecodeSettled 0]"

section \<open>Properties\<close>

subsection \<open>What each part of the message handler leaves alone\<close>

lemma untouched_refl: "untouched st st"
  by (simp add: untouched_def)

lemma untouched_trans: "untouched a b \<Longrightarrow> untouched b c \<Longrightarrow> untouched a c"
  by (simp add: untouched_def)

lemma quiet_refl: "quiet st st"
  by (simp add: quiet_def)

lemma quiet_trans: "quiet a b \<Longrightarrow> quiet b c \<Longrightarrow> quiet a c"
  by (simp add: quiet_def)

lemma append_transcripts_frame:
  "untouched st (append_transcripts m st) \<and> quiet st (append_transcripts m st) \<and>
   nextStartTimeRef (append_transcripts m st) = nextStartTimeRef st \<and>
   playbackLog (append_transcripts m st) = playbackLog st \<and>
   sourcesRef (append_transcripts m st) = sourcesRef st \<and>
   pendingDecodes (append_transcripts m st) = pendingDecodes st"
  by (simp add: append_transcripts_def untouched_def quiet_def Let_def split: option.splits)

lemma schedule_begin_frame:
  "untouched st (begin_state (schedule_begin now m st)) \<and>
   quiet st (begin_state (schedule_begin now m st)) \<and>
   playbackLog (begin_state (schedule_begin now m st)) = playbackLog st \<and>
   sourcesRef (begin_state (schedule_begin now m st)) = sourcesRef st \<and>
   pendingDecodes (begin_state (schedule_begin now m st)) = pendingDecodes st"
  by (simp add: schedule_begin_def untouched_def quiet_def split: sum.splits option.splits)

lemma schedule_resume_frame:
  "untouched st (the_state (schedule_resume env d st)) \<and>
   quiet st (the_state (schedule_resume env d st)) \<and>
   pendingDecodes (the_state (schedule_resume env d st)) = pendingDecodes st"
  by (simp add: schedule_resume_def untouched_def quiet_def Let_def split: option.splits)

lemma schedule_audio_frame:
  "untouched st (the_state (schedule_audio env now m st)) \<and>
   quiet st (the_state (schedule_audio env now m st)) \<and>
   pendingDecodes (the_state (schedule_audio env now m st)) = pendingDecodes st"
proof (cases "schedule_begin now m st")
  case (Awaiting s d)
  with schedule_begin_frame [of st now m] schedule_resume_frame [of s env d]
  show ?thesis
    by (auto simp: schedule_audio_def intro: untouched_trans quiet_trans)
qed (use schedule_begin_frame [of st now m] in \<open>simp_all add: schedule_audio_def\<close>)

lemma handle_interrupted_frame:
  "untouched st (handle_interrupted m st) \<and> quiet st (handle_interrupted m st) \<and>
   pendingDecodes (handle_interrupted m st) = pendingDecodes st"
  by (simp add: handle_interrupted_def untouched_def quiet_def)

lemma handle_turnComplete_frame:
  "untouched st (handle_turnComplete m st) \<and> quiet st (handle_turnComplete m st) \<and>
   nextStartTimeRef (handle_turnComplete m st) = nextStartTimeRef st \<and>
   playbackLog (handle_turnComplete m st) = playbackLog st \<and>
   sourcesRef (handle_turnComplete m st) = sourcesRef st \<and>
   status (handle_turnComplete m st) = status st \<and>
   pendingDecodes (handle_turnComplete m st) = pendingDecodes st"
  by (simp add: handle_turnComplete_def untouched_def quiet_def)

subsection \<open>Callbacks chained on the session promise\<close>

lemma thens_Nil: "thens [] st = st"
  by (simp add: thens_def)

lemma thens_Cons: "thens (cb # cbs) st = thens cbs (promise_then cb st)"
  by (simp add: thens_def)

lemma thens_unrequested:
  "sessionPromise st = None \<or> sessionPromise st = Some Rejected \<Longrightarrow> thens cbs st = st"
  by (induction cbs arbitrary: st) (auto simp: thens_Nil thens_Cons promise_then_def)

lemma thens_pending:
  "sessionPromise st = Some (Pending old) \<Longrightarrow>
   thens cbs st = st\<lparr>sessionPromise := Some (Pending (old @ cbs))\<rparr>"
proof (induction cbs arbitrary: st old)
  case Nil
  then show ?case by (simp add: thens_Nil)
next
  case (Cons cb cbs)
  let ?s1 = "promise_then cb st"
  from Cons.prems have s1: "?s1 = st\<lparr>sessionPromise := Some (Pending (old @ [cb]))\<rparr>"
    by (simp add: promise_then_def)
  then have "sessionPromise ?s1 = Some (Pending (old @ [cb]))" by simp
  from Cons.IH [OF this] show ?case by (simp add: thens_Cons s1)
qed

lemma thens_resolved_tool:
  "sessionPromise st = Some Resolved \<Longrightarrow>
   thens (map ThenSendTool rs) st = st\<lparr>sessionCalls := sessionCalls st @ map SendToolResponse rs\<rparr>"
proof (induction rs arbitrary: st)
  case Nil
  then show ?case by (simp add: thens_Nil)
next
  case (Cons r rs)
  let ?s1 = "promise_then (ThenSendTool r) st"
  from Cons.prems have s1: "?s1 = st\<lparr>sessionCalls := sessionCalls st @ [SendToolResponse r]\<rparr>"
    by (simp add: promise_then_def run_cb_def)
  with Cons.prems have "sessionPromise ?s1 = Some Resolved" by simp
  from Cons.IH [OF this] show ?case by (simp add: thens_Cons s1)
qed

lemma promise_then_commandCalls:
  "promise_then cb (st\<lparr>commandCalls := k\<rparr>) = (promise_then cb st)\<lparr>commandCalls := k\<rparr>"
  by (cases cb) (simp_all add: promise_then_def run_cb_def split: option.splits promise_state.splits)

lemma thens_commandCalls:
  "thens cbs (st\<lparr>commandCalls := k\<rparr>) = (thens cbs st)\<lparr>commandCalls := k\<rparr>"
  by (induction cbs arbitrary: st) (simp_all add: thens_Nil thens_Cons promise_then_commandCalls)

lemma promise_then_keeps_commandCalls: "commandCalls (promise_then cb st) = commandCalls st"
  by (cases cb) (simp_all add: promise_then_def run_cb_def split: option.splits promise_state.splits)

lemma thens_keeps_commandCalls: "commandCalls (thens cbs st) = commandCalls st"
  by (induction cbs arbitrary: st) (simp_all add: thens_Nil thens_Cons promise_then_keeps_commandCalls)

subsection \<open>The dispatch loop\<close>

lemma served_Nil: "served env [] = []"
  by (simp add: served_def)

lemma attempted_Nil: "attempted env [] = []"
  by (simp add: attempted_def)

lemma served_throws:
  "onCommand env (fc_name fc) (fc_args fc) = Throws \<Longrightarrow> served env (fc # fcs) = []"
  by (simp add: served_def returns_on_def)

lemma attempted_throws:
  "onCommand env (fc_name fc) (fc_args fc) = Throws \<Longrightarrow> attempted env (fc # fcs) = [fc]"
  by (simp add: attempted_def served_throws)

lemma served_returns:
  "onCommand env (fc_name fc) (fc_args fc) = Returns v \<Longrightarrow>
   served env (fc # fcs) = fc # served env fcs"
  by (simp add: served_def returns_on_def)

lemma attempted_returns:
  "onCommand env (fc_name fc) (fc_args fc) = Returns v \<Longrightarrow>
   attempted env (fc # fcs) = fc # attempted env fcs"
  by (simp add: attempted_def served_returns)

lemma served_all: "\<forall>fc\<in>set fcs. returns_on env fc \<Longrightarrow> served env fcs = fcs"
  by (simp add: served_def)

lemma attempted_all: "\<forall>fc\<in>set fcs. returns_on env fc \<Longrightarrow> attempted env fcs = fcs"
  by (simp add: attempted_def served_all)

text \<open>
  The loop of lines 93 to 101, whether it completes or throws, has called the handler on
  the calls it reached and has chained one response for each call that returned.
\<close>

lemma dispatch_calls_eq:
  "the_state (dispatch_calls env fcs st) =
     (thens (map (ThenSendTool \<circ> ack) (served env fcs)) st)
       \<lparr>commandCalls := commandCalls st @ map call_of (attempted env fcs)\<rparr>"
proof (induction fcs arbitrary: st)
  case Nil
  show ?case by (simp add: served_Nil attempted_Nil thens_Nil)
next
  case (Cons fc fcs)
  let ?st1 = "st\<lparr>commandCalls := commandCalls st @ [(fc_name fc, fc_args fc)]\<rparr>"
  show ?case
  proof (cases "onCommand env (fc_name fc) (fc_args fc)")
    case Throws
    then show ?thesis
      by (simp add: served_throws attempted_throws thens_Nil call_of_def)
  next
    case (Returns v)
    let ?cb = "ThenSendTool (ack fc)"
    have "the_state (dispatch_calls env (fc # fcs) st) =
          the_state (dispatch_calls env fcs (promise_then ?cb ?st1))"
      using Returns by simp
    also have "\<dots> = (thens (map (ThenSendTool \<circ> ack) (served env fcs)) (promise_then ?cb ?st1))
       \<lparr>commandCalls := commandCalls (promise_then ?cb ?st1) @ map call_of (attempted env fcs)\<rparr>"
      by (rule Cons.IH)
    also have "\<dots> = (thens (map (ThenSendTool \<circ> ack) (served env (fc # fcs))) st)
       \<lparr>commandCalls := commandCalls st @ map call_of (attempted env (fc # fcs))\<rparr>"
      by (simp add: served_returns [OF Returns] attempted_returns [OF Returns] thens_Cons
          promise_then_commandCalls thens_commandCalls promise_then_keeps_commandCalls call_of_def)
    finally show ?thesis .
  qed
qed

lemma promise_then_only:
  "\<exists>p c. promise_then cb st = st\<lparr>sessionPromise := p, sessionCalls := c\<rparr>"
proof -
  have "promise_then cb st =
    st\<lparr>sessionPromise := sessionPromise (promise_then cb st),
       sessionCalls := sessionCalls (promise_then cb st)\<rparr>"
    by (cases cb) (simp_all add: promise_then_def run_cb_def split: option.splits promise_state.splits)
  then show ?thesis by blast
qed

lemma thens_only:
  "\<exists>p c. thens cbs st = st\<lparr>sessionPromise := p, sessionCalls := c\<rparr>"
proof (induction cbs arbitrary: st)
  case Nil
  have "thens [] st = st\<lparr>sessionPromise := sessionPromise st, sessionCalls := sessionCalls st\<rparr>"
    by (simp add: thens_Nil)
  then show ?case by blast
next
  case (Cons cb cbs)
  obtain p c where 1: "promise_then cb st = st\<lparr>sessionPromise := p, sessionCalls := c\<rparr>"
    using promise_then_only by blast
  obtain p' c' where "thens cbs (promise_then cb st) =
      (promise_then cb st)\<lparr>sessionPromise := p', sessionCalls := c'\<rparr>"
    using Cons.IH by blast
  with 1 have "thens (cb # cbs) st = st\<lparr>sessionPromise := p', sessionCalls := c'\<rparr>"
    by (simp add: thens_Cons)
  then show ?case by blast
qed

lemma handle_toolCall_only:
  "\<exists>p c k. the_state (handle_toolCall env m st) =
     st\<lparr>sessionPromise := p, sessionCalls := c, commandCalls := k\<rparr>"
proof -
  have same: "\<exists>p c k. st = st\<lparr>sessionPromise := p, sessionCalls := c, commandCalls := k\<rparr>"
    by (rule exI [of _ "sessionPromise st"], rule exI [of _ "sessionCalls st"],
        rule exI [of _ "commandCalls st"]) simp
  show ?thesis
  proof (cases "\<exists>fcs. toolCall m = Some (ToolCall (Some fcs))")
    case False
    then have "the_state (handle_toolCall env m st) = st"
      by (cases "toolCall m"; cases "the (toolCall m)")
         (auto simp: handle_toolCall_def split: option.splits)
    with same show ?thesis by simp
  next
    case True
    then obtain fcs where fcs: "toolCall m = Some (ToolCall (Some fcs))" by blast
    obtain p c where "thens (map (ThenSendTool \<circ> ack) (served env fcs)) st =
        st\<lparr>sessionPromise := p, sessionCalls := c\<rparr>"
      using thens_only by blast
    with fcs have "the_state (handle_toolCall env m st) =
        st\<lparr>sessionPromise := p, sessionCalls := c,
           commandCalls := commandCalls st @ map call_of (attempted env fcs)\<rparr>"
      by (simp add: handle_toolCall_def dispatch_calls_eq)
    then show ?thesis by blast
  qed
qed

lemma handle_toolCall_frame:
  "untouched st (the_state (handle_toolCall env m st)) \<and>
   nextStartTimeRef (the_state (handle_toolCall env m st)) = nextStartTimeRef st \<and>
   playbackLog (the_state (handle_toolCall env m st)) = playbackLog st \<and>
   sourcesRef (the_state (handle_toolCall env m st)) = sourcesRef st \<and>
   status (the_state (handle_toolCall env m st)) = status st \<and>
   pendingDecodes (the_state (handle_toolCall env m st)) = pendingDecodes st"
proof -
  obtain p c k where "the_state (handle_toolCall env m st) =
      st\<lparr>sessionPromise := p, sessionCalls := c, commandCalls := k\<rparr>"
    using handle_toolCall_only by blast
  then show ?thesis by (simp add: untouched_def)
qed

text \<open>What messages do to the session: they chain or send tool responses, nothing else.\<close>

lemma answered_refl: "answered st st []"
  by (simp add: answered_def split: option.splits promise_state.splits)

lemma answered_thens:
  assumes "sessionPromise s3 = sessionPromise st" and "sessionCalls s3 = sessionCalls st"
  shows "answered st (thens (map ThenSendTool rs) s3) rs"
proof (cases "sessionPromise st")
  case None
  with assms show ?thesis by (simp add: answered_def thens_unrequested)
next
  case (Some p)
  show ?thesis
  proof (cases p)
    case (Pending old)
    with Some assms have "sessionPromise s3 = Some (Pending old)" by simp
    from thens_pending [OF this] Some Pending assms show ?thesis
      by (simp add: answered_def)
  next
    case Resolved
    with Some assms have "sessionPromise s3 = Some Resolved" by simp
    from thens_resolved_tool [OF this] Some Resolved assms show ?thesis
      by (simp add: answered_def)
  next
    case Rejected
    with Some assms show ?thesis by (simp add: answered_def thens_unrequested)
  qed
qed

lemma answered_after:
  "answered st st' rs \<Longrightarrow> quiet st' st'' \<Longrightarrow> answered st st'' rs"
  by (simp add: answered_def quiet_def split: option.splits promise_state.splits)

lemma answered_before:
  "quiet st st' \<Longrightarrow> answered st' st'' rs \<Longrightarrow> answered st st'' rs"
  by (auto simp: answered_def quiet_def split: option.splits promise_state.splits)

lemma handle_toolCall_batch:
  assumes "toolCall m = Some (ToolCall (Some fcs))"
  shows "answered st (the_state (handle_toolCall env m st)) (map ack (served env fcs)) \<and>
         commandCalls (the_state (handle_toolCall env m st))
           = commandCalls st @ map call_of (attempted env fcs) \<and>
         is_Done (handle_toolCall env m st) = (served env fcs = fcs)"
proof -
  let ?rs = "map ack (served env fcs)"
  have eq: "the_state (handle_toolCall env m st) =
      (thens (map ThenSendTool ?rs) st)\<lparr>commandCalls := commandCalls st @ map call_of (attempted env fcs)\<rparr>"
    using assms by (simp add: handle_toolCall_def dispatch_calls_eq)
  have "answered st (thens (map ThenSendTool ?rs) st) ?rs"
    by (rule answered_thens) simp_all
  then have "answered st (the_state (handle_toolCall env m st)) ?rs"
    unfolding eq by (simp add: answered_def split: option.splits promise_state.splits)
  moreover have "is_Done (dispatch_calls env fcs st) = (served env fcs = fcs)" for st
  proof (induction fcs arbitrary: st)
    case Nil
    show ?case by (simp add: served_Nil)
  next
    case (Cons fc fcs)
    show ?case
    proof (cases "onCommand env (fc_name fc) (fc_args fc)")
      case Throws
      then show ?thesis by (simp add: served_throws)
    next
      case (Returns v)
      then show ?thesis using Cons.IH by (simp add: served_returns [OF Returns])
    qed
  qed
  then have "is_Done (handle_toolCall env m st) = (served env fcs = fcs)"
    using assms by (simp add: handle_toolCall_def)
  ultimately show ?thesis using eq by simp
qed

lemma handle_toolCall_answered:
  "\<exists>rs. answered st (the_state (handle_toolCall env m st)) rs"
proof (cases "\<exists>fcs. toolCall m = Some (ToolCall (Some fcs))")
  case False
  then have "the_state (handle_toolCall env m st) = st"
    by (cases "toolCall m"; cases "the (toolCall m)")
       (auto simp: handle_toolCall_def split: option.splits)
  then show ?thesis using answered_refl [of st] by auto
next
  case True
  then obtain fcs where "toolCall m = Some (ToolCall (Some fcs))" by blast
  from handle_toolCall_batch [OF this] show ?thesis by blast
qed

text \<open>The rest of the handler after the audio, lines 85 to 107.\<close>

lemma finish_message_cases:
  "finish_message env m st = the_state (handle_toolCall env m (handle_interrupted m st)) \<or>
   finish_message env m st
     = handle_turnComplete m (the_state (handle_toolCall env m (handle_interrupted m st)))"
  by (cases "handle_toolCall env m (handle_interrupted m st)") (simp_all add: finish_message_def)

lemma finish_message_frame:
  "untouched st (finish_message env m st) \<and>
   pendingDecodes (finish_message env m st) = pendingDecodes st"
proof -
  let ?s3 = "handle_interrupted m st"
  let ?d = "the_state (handle_toolCall env m ?s3)"
  have "untouched st ?d \<and> pendingDecodes ?d = pendingDecodes st"
    using handle_interrupted_frame [of st m] handle_toolCall_frame [of ?s3 env m]
    by (auto intro: untouched_trans)
  moreover have "untouched st (handle_turnComplete m ?d) \<and>
      pendingDecodes (handle_turnComplete m ?d) = pendingDecodes st"
    using calculation handle_turnComplete_frame [of ?d m]
    by (auto intro: untouched_trans)
  ultimately show ?thesis using finish_message_cases [of env m st] by auto
qed

lemma finish_message_answered:
  "\<exists>rs. answered st (finish_message env m st) rs"
proof -
  let ?s3 = "handle_interrupted m st"
  let ?d = "the_state (handle_toolCall env m ?s3)"
  obtain rs where "answered ?s3 ?d rs" using handle_toolCall_answered by blast
  then have d: "answered st ?d rs"
    using handle_interrupted_frame [of st m] by (auto intro: answered_before)
  then have "answered st (handle_turnComplete m ?d) rs"
    using handle_turnComplete_frame [of ?d m] by (auto intro: answered_after)
  with d show ?thesis using finish_message_cases [of env m st] by auto
qed

lemma finish_message_batch:
  assumes "toolCall m = Some (ToolCall (Some fcs))"
  shows "answered st (finish_message env m st) (map ack (served env fcs)) \<and>
         commandCalls (finish_message env m st) = commandCalls st @ map call_of (attempted env fcs)"
proof -
  let ?s3 = "handle_interrupted m st"
  let ?d = "the_state (handle_toolCall env m ?s3)"
  have s3: "quiet st ?s3" using handle_interrupted_frame [of st m] by simp
  note batch = handle_toolCall_batch [OF assms, of ?s3 env]
  have d: "answered st ?d (map ack (served env fcs))"
    "commandCalls ?d = commandCalls st @ map call_of (attempted env fcs)"
  proof -
    from batch have "answered ?s3 ?d (map ack (served env fcs))" by blast
    with s3 show "answered st ?d (map ack (served env fcs))" by (rule answered_before)
    from batch s3 show "commandCalls ?d = commandCalls st @ map call_of (attempted env fcs)"
      by (simp add: quiet_def)
  qed
  have q: "quiet ?d (handle_turnComplete m ?d)"
    using handle_turnComplete_frame [of ?d m] by simp
  have "answered st (handle_turnComplete m ?d) (map ack (served env fcs))"
    using d(1) q by (rule answered_after)
  moreover have "commandCalls (handle_turnComplete m ?d)
      = commandCalls st @ map call_of (attempted env fcs)"
    using d(2) q by (simp add: quiet_def)
  ultimately have "answered st (handle_turnComplete m ?d) (map ack (served env fcs))"
    "commandCalls (handle_turnComplete m ?d) = commandCalls st @ map call_of (attempted env fcs)"
    by simp_all
  with d show ?thesis using finish_message_cases [of env m st] by auto
qed

text \<open>The whole handler, in one piece and in its two halves.\<close>

lemma onmessage_frame:
  "untouched st (onmessage env now m st) \<and>
   pendingDecodes (onmessage env now m st) = pendingDecodes st"
proof (cases "isActive st")
  case False
  then show ?thesis by (simp add: onmessage_def untouched_refl)
next
  case True
  let ?a = "append_transcripts m st"
  let ?s2 = "the_state (schedule_audio env now m ?a)"
  have s2: "untouched st ?s2" "pendingDecodes ?s2 = pendingDecodes st"
    using append_transcripts_frame [of st m] schedule_audio_frame [of ?a env now m]
    by (auto intro: untouched_trans)
  have "untouched st (finish_message env m ?s2)"
    "pendingDecodes (finish_message env m ?s2) = pendingDecodes st"
    using s2 finish_message_frame [of ?s2 env m] by (auto intro: untouched_trans)
  with s2 True show ?thesis
    by (cases "schedule_audio env now m ?a") (simp_all add: onmessage_def)
qed

lemma onmessage_begin_frame:
  "untouched st (onmessage_begin env now m st)"
proof (cases "isActive st")
  case False
  then show ?thesis by (simp add: onmessage_begin_def untouched_refl)
next
  case True
  let ?a = "append_transcripts m st"
  have b: "untouched st (begin_state (schedule_begin now m ?a))"
    using append_transcripts_frame [of st m] schedule_begin_frame [of ?a now m]
    by (auto intro: untouched_trans)
  show ?thesis
  proof (cases "schedule_begin now m ?a")
    case (NoAudio s)
    with b True finish_message_frame [of s env m] show ?thesis
      by (auto simp: onmessage_begin_def intro: untouched_trans)
  next
    case (Awaiting s d)
    with b True show ?thesis by (simp add: onmessage_begin_def untouched_def)
  next
    case (BeginThrown s)
    with b True show ?thesis by (simp add: onmessage_begin_def)
  qed
qed

lemma onmessage_begin_answered:
  "\<exists>rs. answered st (onmessage_begin env now m st) rs"
proof (cases "isActive st")
  case False
  then show ?thesis using answered_refl [of st] by (auto simp: onmessage_begin_def)
next
  case True
  let ?a = "append_transcripts m st"
  have b: "quiet st (begin_state (schedule_begin now m ?a))"
    using append_transcripts_frame [of st m] schedule_begin_frame [of ?a now m]
    by (auto intro: quiet_trans)
  show ?thesis
  proof (cases "schedule_begin now m ?a")
    case (NoAudio s)
    obtain rs where "answered s (finish_message env m s) rs"
      using finish_message_answered by blast
    with b NoAudio have "answered st (finish_message env m s) rs"
      by (auto intro: answered_before)
    with NoAudio True show ?thesis by (auto simp: onmessage_begin_def)
  next
    case (Awaiting s d)
    with b have "quiet st (s\<lparr>pendingDecodes := pendingDecodes s @ [(m, d)]\<rparr>)"
      by (simp add: quiet_def)
    then have "answered st (s\<lparr>pendingDecodes := pendingDecodes s @ [(m, d)]\<rparr>) []"
      using answered_refl [of st] by (auto intro: answered_after)
    with Awaiting True show ?thesis by (auto simp: onmessage_begin_def)
  next
    case (BeginThrown s)
    with b have "answered st s []"
      using answered_refl [of st] by (auto intro: answered_after)
    with BeginThrown True show ?thesis by (auto simp: onmessage_begin_def)
  qed
qed

lemma onmessage_resume_frame:
  "untouched st (onmessage_resume env m d st)"
proof -
  let ?s2 = "the_state (schedule_resume env d st)"
  have s2: "untouched st ?s2" using schedule_resume_frame [of st env d] by simp
  then have "untouched st (finish_message env m ?s2)"
    using finish_message_frame [of ?s2 env m] by (auto intro: untouched_trans)
  with s2 show ?thesis
    by (cases "schedule_resume env d st") (simp_all add: onmessage_resume_def)
qed

lemma onmessage_resume_answered:
  "\<exists>rs. answered st (onmessage_resume env m d st) rs"
proof -
  let ?s2 = "the_state (schedule_resume env d st)"
  have s2: "quiet st ?s2" using schedule_resume_frame [of st env d] by simp
  show ?thesis
  proof (cases "schedule_resume env d st")
    case (Thrown s)
    with s2 have "answered st s []"
      using answered_refl [of st] by (auto intro: answered_after)
    with Thrown show ?thesis by (auto simp: onmessage_resume_def)
  next
    case (Done s)
    obtain rs where "answered s (finish_message env m s) rs"
      using finish_message_answered by blast
    with s2 Done have "answered st (finish_message env m s) rs"
      by (auto intro: answered_before)
    with Done show ?thesis by (auto simp: onmessage_resume_def)
  qed
qed

lemma decode_settled_frame:
  "untouched st (decode_settled env k st)"
proof (cases "k < length (pendingDecodes st)")
  case False
  then show ?thesis by (simp add: decode_settled_def untouched_refl)
next
  case True
  let ?s = "st\<lparr>pendingDecodes := take k (pendingDecodes st) @ drop (Suc k) (pendingDecodes st)\<rparr>"
  have "untouched st ?s" by (simp add: untouched_def)
  with onmessage_resume_frame [of ?s] True show ?thesis
    by (auto simp: decode_settled_def intro: untouched_trans)
qed

lemma decode_settled_answered:
  "\<exists>rs. answered st (decode_settled env k st) rs"
proof (cases "k < length (pendingDecodes st)")
  case False
  then show ?thesis using answered_refl [of st] by (auto simp: decode_settled_def)
next
  case True
  let ?s = "st\<lparr>pendingDecodes := take k (pendingDecodes st) @ drop (Suc k) (pendingDecodes st)\<rparr>"
  let ?m = "fst (pendingDecodes st ! k)"
  let ?d = "snd (pendingDecodes st ! k)"
  have q: "quiet st ?s" by (simp add: quiet_def)
  obtain rs where "answered ?s (onmessage_resume env ?m ?d ?s) rs"
    using onmessage_resume_answered by blast
  with q have "answered st (onmessage_resume env ?m ?d ?s) rs"
    by (rule answered_before)
  with True show ?thesis by (auto simp: decode_settled_def)
qed

text \<open>
  What a message with a tool-call batch does to the session and to the host, when the
  session is active and the audio of the message, if any, decodes.
\<close>

lemma onmessage_batch:
  assumes "isActive st"
    and "is_Done (schedule_audio env now m (append_transcripts m st))"
    and "toolCall m = Some (ToolCall (Some fcs))"
  shows "answered st (onmessage env now m st) (map ack (served env fcs)) \<and>
     commandCalls (onmessage env now m st) = commandCalls st @ map call_of (attempted env fcs)"
proof -
  let ?a = "append_transcripts m st"
  obtain s2 where s2: "schedule_audio env now m ?a = Done s2"
    using assms(2) by (cases "schedule_audio env now m ?a") simp_all
  have q: "quiet st s2"
    using append_transcripts_frame [of st m] schedule_audio_frame [of ?a env now m] s2
    by (auto intro: quiet_trans)
  note batch = finish_message_batch [OF assms(3), of s2 env]
  from batch have "answered s2 (finish_message env m s2) (map ack (served env fcs))" by blast
  with q have "answered st (finish_message env m s2) (map ack (served env fcs))"
    by (rule answered_before)
  moreover from batch q have
    "commandCalls (finish_message env m s2) = commandCalls st @ map call_of (attempted env fcs)"
    by (simp add: quiet_def)
  ultimately have "answered st (finish_message env m s2) (map ack (served env fcs))"
    "commandCalls (finish_message env m s2) = commandCalls st @ map call_of (attempted env fcs)"
    by simp_all
  with assms(1) s2 show ?thesis by (simp add: onmessage_def)
qed

text \<open>
  The handler in one piece is the handler whose decoding settles at once: its first half,
  followed, when that half was suspended, by its second half.
\<close>

lemma onmessage_in_two_halves:
  "onmessage env now m st =
     (if length (pendingDecodes st) < length (pendingDecodes (onmessage_begin env now m st))
      then decode_settled env (length (pendingDecodes st)) (onmessage_begin env now m st)
      else onmessage_begin env now m st)"
proof (cases "isActive st")
  case False
  then show ?thesis by (simp add: onmessage_def onmessage_begin_def)
next
  case True
  let ?a = "append_transcripts m st"
  have a: "pendingDecodes ?a = pendingDecodes st"
    using append_transcripts_frame [of st m] by simp
  show ?thesis
  proof (cases "schedule_begin now m ?a")
    case (NoAudio s)
    then have "pendingDecodes s = pendingDecodes st"
      using schedule_begin_frame [of ?a now m] a by simp
    then have "pendingDecodes (finish_message env m s) = pendingDecodes st"
      using finish_message_frame [of s env m] by simp
    with NoAudio True show ?thesis
      by (simp add: onmessage_def onmessage_begin_def schedule_audio_def)
  next
    case (BeginThrown s)
    then have "pendingDecodes s = pendingDecodes st"
      using schedule_begin_frame [of ?a now m] a by simp
    with BeginThrown True show ?thesis
      by (simp add: onmessage_def onmessage_begin_def schedule_audio_def)
  next
    case (Awaiting s d)
    then have p: "pendingDecodes s = pendingDecodes st"
      using schedule_begin_frame [of ?a now m] a by simp
    let ?b = "s\<lparr>pendingDecodes := pendingDecodes s @ [(m, d)]\<rparr>"
    have b: "onmessage_begin env now m st = ?b"
      using Awaiting True by (simp add: onmessage_begin_def)
    have "decode_settled env (length (pendingDecodes s)) ?b = onmessage_resume env m d s"
      by (simp add: decode_settled_def nth_append)
    then have "decode_settled env (length (pendingDecodes st)) ?b = onmessage_resume env m d s"
      by (simp only: p)
    moreover have "onmessage env now m st = onmessage_resume env m d s"
      using Awaiting True by (simp add: onmessage_def onmessage_resume_def schedule_audio_def)
    ultimately show ?thesis using b p by simp
  qed
qed

subsection \<open>Evaluating concrete runs\<close>

lemmas handler_defs =
  run_def step_def mounted_def initial_def startSession_def getUserMedia_resolved_def
  getUserMedia_rejected_def onopen_def session_resolved_def session_rejected_def run_cb_def
  promise_then_def onaudioprocess_def onerror_def onclose_def onended_def toggleMute_def
  cleanup_def close_context_def onmessage_def append_transcripts_def js_text_def
  audioData_def schedule_audio_def schedule_begin_def schedule_resume_def finish_message_def
  onmessage_begin_def onmessage_resume_def decode_settled_def clock_max_def startable_def
  interrupts_def handle_interrupted_def handle_toolCall_def
  completes_turn_def handle_turnComplete_def ack_def Let_def

lemmas message_defs =
  empty_content_def content_message_def model_fragment_def turn_complete_message_def
  interrupted_message_def audio_message_def tool_call_message_def

lemma established_eq:
  "established = initial\<lparr>status := Listening, audioContextRef := Some Running,
     outputAudioContextRef := Some Running, isActive := True, stream := Some Live,
     sessionPromise := Some Resolved, processorInstalled := True\<rparr>"
  by (simp add: established_def handler_defs)

subsection \<open>Runs and the devices\<close>

lemma run_Cons: "run env (ev # evs) st = run env evs (step env ev st)"
  by (simp add: run_def)

lemma run_append: "run env (xs @ ys) st = run env ys (run env xs st)"
  by (simp add: run_def)

text \<open>Running the chained callbacks only makes calls on the session, and no audio call
  unless an audio callback was chained.\<close>

lemma foldl_run_cb_calls:
  "\<exists>new. foldl (\<lambda>s cb. run_cb cb s) st cbs = st\<lparr>sessionCalls := sessionCalls st @ new\<rparr> \<and>
         (\<not> list_ex is_audio_cb cbs \<longrightarrow> \<not> list_ex is_audio_call new)"
proof (induction cbs arbitrary: st)
  case Nil
  have "foldl (\<lambda>s cb. run_cb cb s) st [] = st\<lparr>sessionCalls := sessionCalls st @ []\<rparr>"
    by simp
  then show ?case by (intro exI [of _ "[]"]) simp
next
  case (Cons cb cbs)
  obtain one where one: "run_cb cb st = st\<lparr>sessionCalls := sessionCalls st @ one\<rparr>"
    "\<not> is_audio_cb cb \<longrightarrow> \<not> list_ex is_audio_call one"
  proof (cases cb)
    case CloseIfInactive
    show ?thesis
    proof (cases "isActive st")
      case True
      with CloseIfInactive have "run_cb cb st = st\<lparr>sessionCalls := sessionCalls st @ []\<rparr>"
        by (simp add: run_cb_def)
      then show ?thesis using that [of "[]"] by simp
    next
      case False
      with CloseIfInactive have "run_cb cb st = st\<lparr>sessionCalls := sessionCalls st @ [SessionClose]\<rparr>"
        by (simp add: run_cb_def)
      then show ?thesis using that [of "[SessionClose]"] by (simp add: is_audio_call_def)
    qed
  next
    case (ThenSendAudio b)
    then have "run_cb cb st = st\<lparr>sessionCalls := sessionCalls st @ [SendRealtimeInput b]\<rparr>"
      by (simp add: run_cb_def)
    then show ?thesis using that [of "[SendRealtimeInput b]"] ThenSendAudio
      by (simp add: is_audio_cb_def)
  next
    case (ThenSendTool r)
    then have "run_cb cb st = st\<lparr>sessionCalls := sessionCalls st @ [SendToolResponse r]\<rparr>"
      by (simp add: run_cb_def)
    then show ?thesis using that [of "[SendToolResponse r]"] by (simp add: is_audio_call_def)
  qed
  obtain more where more: "foldl (\<lambda>s cb. run_cb cb s) (run_cb cb st) cbs
      = (run_cb cb st)\<lparr>sessionCalls := sessionCalls (run_cb cb st) @ more\<rparr>"
    "\<not> list_ex is_audio_cb cbs \<longrightarrow> \<not> list_ex is_audio_call more"
    using Cons.IH [of "run_cb cb st"] by blast
  have "foldl (\<lambda>s cb. run_cb cb s) st (cb # cbs) = st\<lparr>sessionCalls := sessionCalls st @ (one @ more)\<rparr>"
    using one(1) more(1) by simp
  moreover have "\<not> list_ex is_audio_cb (cb # cbs) \<longrightarrow> \<not> list_ex is_audio_call (one @ more)"
    using one(2) more(2) by simp
  ultimately show ?case by blast
qed

lemma session_resolved_only:
  "\<exists>p c. session_resolved st = st\<lparr>sessionPromise := p, sessionCalls := c\<rparr>"
proof (cases "\<exists>cbs. sessionPromise st = Some (Pending cbs)")
  case False
  then have "session_resolved st = st\<lparr>sessionPromise := sessionPromise st, sessionCalls := sessionCalls st\<rparr>"
    by (auto simp: session_resolved_def split: option.splits promise_state.splits)
  then show ?thesis by blast
next
  case True
  then obtain cbs where cbs: "sessionPromise st = Some (Pending cbs)" by blast
  obtain new where "foldl (\<lambda>s cb. run_cb cb s) (st\<lparr>sessionPromise := Some Resolved\<rparr>) cbs
      = st\<lparr>sessionPromise := Some Resolved\<rparr>
          \<lparr>sessionCalls := sessionCalls (st\<lparr>sessionPromise := Some Resolved\<rparr>) @ new\<rparr>"
    using foldl_run_cb_calls by blast
  with cbs have "session_resolved st = st\<lparr>sessionPromise := Some Resolved, sessionCalls := sessionCalls st @ new\<rparr>"
    by (simp add: session_resolved_def)
  then show ?thesis by blast
qed

text \<open>
  No event but the cleanup changes the state of an audio context, and no event at all
  ends a live microphone stream: nothing in the component stops its tracks.
\<close>

lemma step_keeps_devices:
  "(ev \<noteq> Cleanup \<longrightarrow>
      audioContextRef (step env ev st) = audioContextRef st \<and>
      outputAudioContextRef (step env ev st) = outputAudioContextRef st) \<and>
   (stream st = Some Live \<longrightarrow> stream (step env ev st) = Some Live)"
proof (cases ev)
  case (Message now m)
  then show ?thesis
    using onmessage_begin_frame [of st env now m] by (simp add: step_def untouched_def)
next
  case (DecodeSettled k)
  then show ?thesis
    using decode_settled_frame [of st env k] by (simp add: step_def untouched_def)
next
  case SessionResolved
  obtain p c where "session_resolved st = st\<lparr>sessionPromise := p, sessionCalls := c\<rparr>"
    using session_resolved_only by blast
  with SessionResolved show ?thesis by (simp add: step_def)
next
  case (Onaudioprocess d)
  obtain p c where "promise_then (ThenSendAudio (createBlob env d)) st
      = st\<lparr>sessionPromise := p, sessionCalls := c\<rparr>"
    using promise_then_only by blast
  with Onaudioprocess show ?thesis by (simp add: step_def onaudioprocess_def)
next
  case (Onended src)
  then show ?thesis by (simp add: step_def onended_def Let_def)
next
  case SessionRejected
  then show ?thesis
    by (simp add: step_def session_rejected_def split: option.splits promise_state.splits)
qed (simp_all add: step_def getUserMedia_resolved_def getUserMedia_rejected_def onopen_def
       onerror_def onclose_def toggleMute_def cleanup_def)

lemma run_keeps_contexts:
  assumes "Cleanup \<notin> set evs"
  shows "audioContextRef (run env evs st) = audioContextRef st \<and>
         outputAudioContextRef (run env evs st) = outputAudioContextRef st"
  using assms
proof (induction evs arbitrary: st)
  case Nil
  show ?case by (simp add: run_def)
next
  case (Cons ev evs)
  then have "ev \<noteq> Cleanup" "Cleanup \<notin> set evs" by auto
  with Cons.IH [of "step env ev st"] step_keeps_devices [of ev env st]
  show ?case by (simp add: run_Cons)
qed

lemma run_keeps_stream:
  "stream st = Some Live \<Longrightarrow> stream (run env evs st) = Some Live"
proof (induction evs arbitrary: st)
  case Nil
  then show ?case by (simp add: run_def)
next
  case (Cons ev evs)
  with step_keeps_devices [of ev env st] show ?case by (simp add: run_Cons)
qed

subsection \<open>Transcripts\<close>

text \<open>
  C4, as stated, fails. Lines 61 and 64 put the space in front of every fragment, the first
  included: \<open>hello\<close> then \<open>world\<close> on the empty model transcript give the string
  \<open>hello world\<close> with a space in front, not \<open>hello world\<close>.
\<close>

theorem transcript_hello_world_counterexample:
  "aiTranscript (run env0 [Message 0 (model_fragment ''hello''),
                           Message 0 (model_fragment ''world'')] established)
     \<noteq> ''hello world''"
  by (simp add: established_eq handler_defs message_defs)

text \<open>
  C4, amended. In an active session, appending the fragments \<open>a\<close> then \<open>b\<close> to the empty
  model transcript yields a space, \<open>a\<close>, a space, \<open>b\<close>: every fragment, the first included,
  is preceded by a single space. A turn-complete event then resets both transcripts to
  empty, and a fragment \<open>c\<close> after it yields a space followed by \<open>c\<close>, with nothing left
  over from the turn before.
\<close>

theorem transcript_append_and_reset:
  assumes "isActive st" and "aiTranscript st = []"
  shows "let s2 = onmessage env n2 (model_fragment b) (onmessage env n1 (model_fragment a) st);
             s3 = onmessage env n3 turn_complete_message s2;
             s4 = onmessage env n4 (model_fragment c) s3
         in aiTranscript s2 = '' '' @ a @ '' '' @ b \<and>
            aiTranscript s3 = [] \<and> userTranscript s3 = [] \<and>
            aiTranscript s4 = '' '' @ c"
  using assms
  by (simp add: Let_def onmessage_def append_transcripts_def js_text_def audioData_def
      schedule_audio_def schedule_begin_def finish_message_def interrupts_def
      handle_interrupted_def handle_toolCall_def completes_turn_def handle_turnComplete_def
      message_defs)

theorem transcript_append_and_reset_witness:
  "isActive established \<and> aiTranscript established = [] \<and>
   (let s2 = onmessage env0 0 (model_fragment ''world'')
               (onmessage env0 0 (model_fragment ''hello'') established);
        s3 = onmessage env0 0 turn_complete_message s2;
        s4 = onmessage env0 0 (model_fragment ''hi'') s3
    in aiTranscript s2 = '' hello world'' \<and> aiTranscript s3 = [] \<and> userTranscript s3 = [] \<and>
       aiTranscript s4 = '' hi'')"
proof -
  have h: "isActive established" "aiTranscript established = []"
    by (simp_all add: established_eq initial_def)
  show ?thesis
    using h transcript_append_and_reset [OF h, where env = env0 and a = "''hello''"
        and b = "''world''" and c = "''hi''" and ?n1.0 = 0 and ?n2.0 = 0 and ?n3.0 = 0 and ?n4.0 = 0]
    by (simp add: Let_def)
qed

subsection \<open>Mute\<close>

text \<open>
  C2 does not hold of the code. The handler of line 44 is made once, inside the mount
  effect, and the \<open>isMuted\<close> it tests at line 45 is the one of the first render, which is
  false for ever. After the mute button is pressed on an established session \<open>isMuted\<close> is
  true, and the next captured frame is sent all the same.
\<close>

theorem muted_frame_reaches_uplink:
  "isMuted (run env0 [ToggleMute, Onaudioprocess [0, 1]] established) \<and>
   sessionCalls (run env0 [ToggleMute, Onaudioprocess [0, 1]] established)
     = [SendRealtimeInput (createBlob env0 [0, 1])]"
  by (simp add: established_eq handler_defs)

subsection \<open>Errors and teardown\<close>

text \<open>
  C5, as stated, fails. The \<open>onerror\<close> callback of line 109 sets the status and does nothing
  else: on the established session both audio contexts are still running and the microphone
  stream is still live after it.
\<close>

theorem transport_error_counterexample:
  "status (onerror established) = Error \<and> \<not> devices_released (onerror established)"
  by (simp add: established_eq onerror_def devices_released_def initial_def)

text \<open>
  C5, amended. On a transport failure the status becomes \<open>error\<close> and no other part of the
  state changes: the error handler releases no device and makes no call on the session.
  Whatever happens afterwards, the two audio contexts stay as they were for as long as the
  cleanup of the unmount has not run, and it is that cleanup that closes them; a live
  microphone stream stays live throughout, the cleanup included.
\<close>

theorem transport_error_sets_status_only:
  assumes "Cleanup \<notin> set evs"
  shows "onerror st = st\<lparr>status := Error\<rparr> \<and>
         audioContextRef (run env evs (onerror st)) = audioContextRef st \<and>
         outputAudioContextRef (run env evs (onerror st)) = outputAudioContextRef st \<and>
         audioContextRef (run env (evs @ [Cleanup]) (onerror st)) \<noteq> Some Running \<and>
         outputAudioContextRef (run env (evs @ [Cleanup]) (onerror st)) \<noteq> Some Running \<and>
         (stream st = Some Live \<longrightarrow>
            stream (run env (evs @ Cleanup # later) (onerror st)) = Some Live)"
proof -
  have "audioContextRef (run env evs (onerror st)) = audioContextRef (onerror st)"
    "outputAudioContextRef (run env evs (onerror st)) = outputAudioContextRef (onerror st)"
    using run_keeps_contexts [OF assms, of env "onerror st"] by simp_all
  then have ctx: "audioContextRef (run env evs (onerror st)) = audioContextRef st"
    "outputAudioContextRef (run env evs (onerror st)) = outputAudioContextRef st"
    by (simp_all add: onerror_def)
  have closed: "audioContextRef (run env (evs @ [Cleanup]) (onerror st)) \<noteq> Some Running"
    "outputAudioContextRef (run env (evs @ [Cleanup]) (onerror st)) \<noteq> Some Running"
    by (simp_all add: run_append run_def step_def cleanup_def close_context_def split: option.splits)
  have "stream (run env (evs @ Cleanup # later) (onerror st)) = Some Live" if "stream st = Some Live"
    using that run_keeps_stream [of "onerror st" env "evs @ Cleanup # later"]
    by (simp add: onerror_def)
  with ctx closed show ?thesis by (simp add: onerror_def)
qed

theorem transport_error_sets_status_only_witness:
  "Cleanup \<notin> set [Message 0 (model_fragment ''hello''), Onclose] \<and>
   onerror established = established\<lparr>status := Error\<rparr> \<and>
   audioContextRef (run env0 [Message 0 (model_fragment ''hello''), Onclose] (onerror established))
     = Some Running \<and>
   outputAudioContextRef (run env0 [Message 0 (model_fragment ''hello''), Onclose] (onerror established))
     = Some Running \<and>
   audioContextRef (run env0 ([Message 0 (model_fragment ''hello''), Onclose] @ [Cleanup])
     (onerror established)) = Some Closed \<and>
   stream (run env0 ([Message 0 (model_fragment ''hello''), Onclose] @ Cleanup # [Onclose])
     (onerror established)) = Some Live"
proof -
  have h: "Cleanup \<notin> set [Message 0 (model_fragment ''hello''), Onclose]" by simp
  have e: "audioContextRef established = Some Running"
    "outputAudioContextRef established = Some Running" "stream established = Some Live"
    by (simp_all add: established_eq initial_def)
  have c: "audioContextRef (run env0 ([Message 0 (model_fragment ''hello''), Onclose] @ [Cleanup])
     (onerror established)) = Some Closed"
    by (simp add: established_eq handler_defs message_defs)
  show ?thesis
    using h c transport_error_sets_status_only [OF h, of established env0 "[Onclose]"]
    by (simp add: e onerror_def)
qed

text \<open>
  C9 does not hold of the code. The deferred close of line 140 runs once, when the promise
  resolves; a cleanup after that only clears \<open>isActive\<close> and closes the two contexts. On
  the established session the cleanup makes no call on the session at all, so the
  transport stays open, and the microphone stream, which no line of the component ever
  stops, stays live.
\<close>

theorem close_after_resolution_leaves_transport_open:
  "sessionCalls (run env0 [Cleanup] established) = [] \<and>
   stream (run env0 [Cleanup] established) = Some Live \<and>
   audioContextRef (run env0 [Cleanup] established) = Some Closed \<and>
   outputAudioContextRef (run env0 [Cleanup] established) = Some Closed \<and>
   isActive (run env0 [Cleanup] established) = False"
  by (simp add: established_eq handler_defs)

subsection \<open>The playback clock\<close>

lemma clock_le_refl: "clock_le c c"
  by (cases c) simp_all

lemma clock_le_trans: "clock_le a b \<Longrightarrow> clock_le b c \<Longrightarrow> clock_le a c"
  by (cases a; cases b; cases c) simp_all

lemma clock_le_max: "clock_le c (clock_max c now)"
  by (cases c) (simp_all add: clock_max_def)


lemma startable_Finite: "startable c = Some t \<Longrightarrow> c = Finite t"
  by (cases c) (simp_all add: startable_def split: if_splits)

lemma last_started_snoc:
  "last_started (plog @ [e]) = (case e of Started a \<Rightarrow> Some a | Stopped _ \<Rightarrow> None)"
  by (induction plog rule: last_started.induct) (simp_all split: playback_event.splits)

lemma last_started_Cons:
  "es \<noteq> [] \<Longrightarrow> last_started (e # es) = last_started es"
  by (cases es) simp_all

lemma chained_snoc_Stopped: "chained (plog @ [Stopped ss]) = chained plog"
  by (induction plog rule: chained.induct) simp_all

lemma chained_snoc_Started:
  "chained (plog @ [Started b]) =
     (chained plog \<and>
      (case last_started plog of
         Some a \<Rightarrow> clock_le (ends_at a) (Finite (started_at b))
       | None \<Rightarrow> True))"
proof (induction plog rule: chained.induct)
  case 1
  show ?case by simp
next
  case (2 ss rest)
  then show ?case by (cases rest) (simp_all add: last_started_Cons)
next
  case (3 a)
  show ?case by simp
next
  case (4 a ss rest)
  then show ?case by (cases rest) (simp_all add: last_started_Cons)
next
  case (5 a c rest)
  then show ?case by simp
qed

text \<open>What each part of the handler does to the playback log and to the clock.\<close>

lemma schedule_begin_clock:
  "nextStartTimeRef (begin_state (schedule_begin now m st)) = nextStartTimeRef st \<or>
   nextStartTimeRef (begin_state (schedule_begin now m st)) = clock_max (nextStartTimeRef st) now"
  by (simp add: schedule_begin_def split: sum.splits option.splits)

lemma schedule_resume_Thrown:
  "schedule_resume env d st = Thrown s \<Longrightarrow> s = st"
  by (auto simp: schedule_resume_def Let_def split: option.splits)

lemma schedule_resume_Done:
  assumes "schedule_resume env d st = Done s"
  shows "\<exists>src. playbackLog s = playbackLog st @ [Started src] \<and>
           nextStartTimeRef st = Finite (started_at src) \<and>
           nextStartTimeRef s = ends_at src \<and>
           sourcesRef s = sourcesRef st @ [src]"
proof -
  from assms obtain buf t where b: "decodeAudioData env d = Some buf"
    "startable (nextStartTimeRef st) = Some t"
    by (auto simp: schedule_resume_def Let_def split: option.splits)
  let ?src = "\<lparr>node_id = nodeCounter st, buffer = buf, started_at = t\<rparr>"
  from b(2) have c: "nextStartTimeRef st = Finite t" by (rule startable_Finite)
  from assms b have "s = st\<lparr>nodeCounter := Suc (nodeCounter st),
      playbackLog := playbackLog st @ [Started ?src],
      nextStartTimeRef := clock_add (nextStartTimeRef st) (duration buf),
      sourcesRef := sourcesRef st @ [?src]\<rparr>"
    by (simp add: schedule_resume_def Let_def)
  with c have "playbackLog s = playbackLog st @ [Started ?src] \<and>
      nextStartTimeRef st = Finite (started_at ?src) \<and> nextStartTimeRef s = ends_at ?src \<and>
      sourcesRef s = sourcesRef st @ [?src]"
    by (simp add: ends_at_def)
  then show ?thesis by blast
qed

lemma finish_message_playback:
  "(\<not> interrupts m \<longrightarrow>
      playbackLog (finish_message env m st) = playbackLog st \<and>
      nextStartTimeRef (finish_message env m st) = nextStartTimeRef st \<and>
      sourcesRef (finish_message env m st) = sourcesRef st) \<and>
   (interrupts m \<longrightarrow>
      playbackLog (finish_message env m st) = playbackLog st @ [Stopped (sourcesRef st)] \<and>
      nextStartTimeRef (finish_message env m st) = Finite 0 \<and>
      sourcesRef (finish_message env m st) = [] \<and>
      status (finish_message env m st) = Listening)"
proof -
  let ?s3 = "handle_interrupted m st"
  let ?d = "the_state (handle_toolCall env m ?s3)"
  have d: "playbackLog ?d = playbackLog ?s3" "nextStartTimeRef ?d = nextStartTimeRef ?s3"
    "sourcesRef ?d = sourcesRef ?s3" "status ?d = status ?s3"
    using handle_toolCall_frame [of ?s3 env m] by simp_all
  have t: "playbackLog (handle_turnComplete m ?d) = playbackLog ?s3"
    "nextStartTimeRef (handle_turnComplete m ?d) = nextStartTimeRef ?s3"
    "sourcesRef (handle_turnComplete m ?d) = sourcesRef ?s3"
    "status (handle_turnComplete m ?d) = status ?s3"
    using handle_turnComplete_frame [of ?d m] d by simp_all
  have "playbackLog (finish_message env m st) = playbackLog ?s3 \<and>
        nextStartTimeRef (finish_message env m st) = nextStartTimeRef ?s3 \<and>
        sourcesRef (finish_message env m st) = sourcesRef ?s3 \<and>
        status (finish_message env m st) = status ?s3"
    using d t finish_message_cases [of env m st] by auto
  then show ?thesis by (simp add: handle_interrupted_def)
qed

subsection \<open>Playback order\<close>

lemma in_order_later:
  assumes "in_order st" and "playbackLog st' = playbackLog st"
    and "clock_le (nextStartTimeRef st) (nextStartTimeRef st')"
  shows "in_order st'"
proof -
  have "clock_after st'"
  proof (cases "last_started (playbackLog st)")
    case None
    with assms(2) show ?thesis by (simp add: clock_after_def)
  next
    case (Some a)
    with assms(1) have "clock_le (ends_at a) (nextStartTimeRef st)"
      by (simp add: in_order_def clock_after_def)
    from this assms(3) have "clock_le (ends_at a) (nextStartTimeRef st')"
      by (rule clock_le_trans)
    with Some assms(2) show ?thesis by (simp add: clock_after_def)
  qed
  with assms(1,2) show ?thesis by (simp add: in_order_def)
qed

lemma in_order_stopped:
  assumes "in_order st" and "playbackLog st' = playbackLog st @ [Stopped ss]"
  shows "in_order st'"
  using assms by (simp add: in_order_def clock_after_def chained_snoc_Stopped last_started_snoc)

lemma finish_message_in_order:
  assumes "in_order st"
  shows "in_order (finish_message env m st)"
proof (cases "interrupts m")
  case True
  with finish_message_playback [of m env st]
  have "playbackLog (finish_message env m st) = playbackLog st @ [Stopped (sourcesRef st)]"
    by simp
  with assms show ?thesis by (rule in_order_stopped)
next
  case False
  with finish_message_playback [of m env st]
  have "playbackLog (finish_message env m st) = playbackLog st"
    "clock_le (nextStartTimeRef st) (nextStartTimeRef (finish_message env m st))"
    by (simp_all add: clock_le_refl)
  with assms show ?thesis by (rule in_order_later)
qed

lemma schedule_resume_in_order:
  assumes "in_order st" and "schedule_resume env d st = Done s"
  shows "in_order s"
proof -
  obtain src where src: "playbackLog s = playbackLog st @ [Started src]"
    "nextStartTimeRef st = Finite (started_at src)" "nextStartTimeRef s = ends_at src"
    using schedule_resume_Done [OF assms(2)] by blast
  have "chained (playbackLog s)"
    using assms(1) src(1,2)
    by (auto simp: in_order_def clock_after_def chained_snoc_Started split: option.splits)
  moreover have "clock_after s"
    using src(1,3) by (simp add: clock_after_def clock_le_refl last_started_snoc)
  ultimately show ?thesis by (simp add: in_order_def)
qed

lemma onmessage_resume_in_order:
  assumes "in_order st"
  shows "in_order (onmessage_resume env m d st)"
proof (cases "schedule_resume env d st")
  case (Thrown s)
  with schedule_resume_Thrown [OF Thrown] assms show ?thesis
    by (simp add: onmessage_resume_def)
next
  case (Done s)
  with schedule_resume_in_order [OF assms Done] show ?thesis
    by (simp add: onmessage_resume_def finish_message_in_order)
qed

lemma decode_settled_in_order:
  assumes "in_order st"
  shows "in_order (decode_settled env k st)"
proof (cases "k < length (pendingDecodes st)")
  case False
  with assms show ?thesis by (simp add: decode_settled_def)
next
  case True
  let ?s = "st\<lparr>pendingDecodes := take k (pendingDecodes st) @ drop (Suc k) (pendingDecodes st)\<rparr>"
  from assms have "in_order ?s" by (rule in_order_later) (simp_all add: clock_le_refl)
  with True show ?thesis by (simp add: decode_settled_def onmessage_resume_in_order)
qed

lemma onmessage_begin_in_order:
  assumes "in_order st"
  shows "in_order (onmessage_begin env now m st)"
proof (cases "isActive st")
  case False
  with assms show ?thesis by (simp add: onmessage_begin_def)
next
  case True
  let ?a = "append_transcripts m st"
  let ?b = "begin_state (schedule_begin now m ?a)"
  have "playbackLog ?b = playbackLog st"
    using append_transcripts_frame [of st m] schedule_begin_frame [of ?a now m] by simp
  moreover have "clock_le (nextStartTimeRef st) (nextStartTimeRef ?b)"
    using append_transcripts_frame [of st m] schedule_begin_clock [of now m ?a]
    by (auto simp: clock_le_refl clock_le_max)
  ultimately have b: "in_order ?b" using assms by (intro in_order_later [of st ?b])
  show ?thesis
  proof (cases "schedule_begin now m ?a")
    case (NoAudio s)
    with b True show ?thesis by (simp add: onmessage_begin_def finish_message_in_order)
  next
    case (Awaiting s d)
    with b have "in_order s" by simp
    then have "in_order (s\<lparr>pendingDecodes := pendingDecodes s @ [(m, d)]\<rparr>)"
      by (rule in_order_later) (simp_all add: clock_le_refl)
    with Awaiting True show ?thesis by (simp add: onmessage_begin_def)
  next
    case (BeginThrown s)
    with b True show ?thesis by (simp add: onmessage_begin_def)
  qed
qed

text \<open>Only the message handlers touch the playback log and the clock.\<close>

lemma step_other_playback:
  assumes "\<And>now m. ev \<noteq> Message now m" and "\<And>k. ev \<noteq> DecodeSettled k"
  shows "playbackLog (step env ev st) = playbackLog st \<and>
         nextStartTimeRef (step env ev st) = nextStartTimeRef st"
proof (cases ev)
  case SessionResolved
  obtain p c where "session_resolved st = st\<lparr>sessionPromise := p, sessionCalls := c\<rparr>"
    using session_resolved_only by blast
  with SessionResolved show ?thesis by (simp add: step_def)
next
  case (Onaudioprocess d)
  obtain p c where "promise_then (ThenSendAudio (createBlob env d)) st
      = st\<lparr>sessionPromise := p, sessionCalls := c\<rparr>"
    using promise_then_only by blast
  with Onaudioprocess show ?thesis by (simp add: step_def onaudioprocess_def)
next
  case (Onended src)
  then show ?thesis by (simp add: step_def onended_def Let_def)
next
  case SessionRejected
  then show ?thesis
    by (simp add: step_def session_rejected_def split: option.splits promise_state.splits)
next
  case (Message now m)
  with assms(1) show ?thesis by blast
next
  case (DecodeSettled k)
  with assms(2) show ?thesis by blast
qed (simp_all add: step_def getUserMedia_resolved_def getUserMedia_rejected_def onopen_def
       onerror_def onclose_def toggleMute_def cleanup_def)

lemma step_in_order:
  assumes "in_order st"
  shows "in_order (step env ev st)"
proof (cases "(\<exists>now m. ev = Message now m) \<or> (\<exists>k. ev = DecodeSettled k)")
  case True
  with assms show ?thesis
    by (auto simp: step_def onmessage_begin_in_order decode_settled_in_order)
next
  case False
  then have "playbackLog (step env ev st) = playbackLog st \<and>
      nextStartTimeRef (step env ev st) = nextStartTimeRef st"
    by (intro step_other_playback) auto
  then have "playbackLog (step env ev st) = playbackLog st"
    "clock_le (nextStartTimeRef st) (nextStartTimeRef (step env ev st))"
    by (simp_all add: clock_le_refl)
  with assms show ?thesis by (rule in_order_later)
qed

lemma run_in_order: "in_order st \<Longrightarrow> in_order (run env evs st)"
proof (induction evs arbitrary: st)
  case Nil
  then show ?case by (simp add: run_def)
next
  case (Cons ev evs)
  from Cons.prems have "in_order (step env ev st)" by (rule step_in_order)
  then have "in_order (run env evs (step env ev st))" by (rule Cons.IH)
  then show ?case by (simp only: run_Cons)
qed

lemma in_order_mounted: "in_order mounted"
  by (simp add: in_order_def clock_after_def mounted_def startSession_def initial_def)

lemma chained_adjacent:
  assumes "chained plog" and "Suc i < length plog"
    and "plog ! i = Started a" and "plog ! Suc i = Started b"
  shows "clock_le (ends_at a) (Finite (started_at b))"
  using assms
proof (induction plog arbitrary: i rule: chained.induct)
  case 1
  then show ?case by simp
next
  case (2 ss rest)
  then show ?case by (cases i) auto
next
  case (3 x)
  then show ?case by simp
next
  case (4 x ss rest)
  then show ?case by (cases i) (auto simp: nth_Cons split: nat.splits)
next
  case (5 x y rest)
  then show ?case by (cases i) auto
qed

subsection \<open>Rounding\<close>

lemma ulp_exponent_binade:
  assumes "2 powr of_int e \<le> \<bar>x\<bar>" and "\<bar>x\<bar> < 2 powr of_int (e + 1)" and "- 1022 \<le> e"
  shows "ulp_exponent x = e - 52"
proof -
  have "(0::real) < 2 powr of_int e" by simp
  with assms(1) have "0 < \<bar>x\<bar>" by linarith
  then have "\<lfloor>log 2 \<bar>x\<bar>\<rfloor> = e"
    using assms(1,2) floor_log_eq_powr_iff [of "\<bar>x\<bar>" 2 e] by simp
  with assms(3) show ?thesis by (simp add: ulp_exponent_def)
qed

lemma fl_binade:
  assumes "2 powr of_int e \<le> \<bar>x\<bar>" and "\<bar>x\<bar> < 2 powr of_int (e + 1)" and "- 1022 \<le> e"
  shows "fl x = of_int (round_even (x / 2 powr of_int (e - 52))) * 2 powr of_int (e - 52)"
proof -
  have "(0::real) < 2 powr of_int e" by simp
  with assms(1) have "x \<noteq> 0" by auto
  then show ?thesis using ulp_exponent_binade [OF assms] by (simp add: fl_def)
qed

text \<open>The sums and quotients of the examples, rounded.\<close>

lemma fl_one: "fl 1 = 1"
  by (simp add: fl_binade [where e = 0] round_even_def powr_neg_numeral)

lemma fl_two: "fl 2 = 2"
  by (simp add: fl_binade [where e = 1] round_even_def powr_neg_numeral)

lemma fl_three: "fl 3 = 3"
  by (simp add: fl_binade [where e = 1] round_even_def powr_neg_numeral)

lemma fl_tenth: "fl (1 / 10) = 3602879701896397 / 36028797018963968"
  by (simp add: fl_binade [where e = "- 4"] round_even_def powr_neg_numeral)

lemma fl_seven_tenths: "fl (7 / 10) = 3152519739159347 / 4503599627370496"
  by (simp add: fl_binade [where e = "- 1"] round_even_def powr_neg_numeral powr_minus_divide)

lemma fl_tenth_again:
  "fl (3602879701896397 / 36028797018963968) = 3602879701896397 / 36028797018963968"
  by (simp add: fl_binade [where e = "- 4"] round_even_def powr_neg_numeral)

lemma fl_tenth_plus_seven_tenths:
  "fl (28823037615171173 / 36028797018963968) = 7205759403792793 / 9007199254740992"
  by (simp add: fl_binade [where e = "- 1"] round_even_def powr_neg_numeral powr_minus_divide)

lemma duration_one: "duration \<lparr>buf_length = 24000, buf_sampleRate = 24000\<rparr> = 1"
  by (simp add: duration_def fl_one)

lemma duration_two: "duration \<lparr>buf_length = 48000, buf_sampleRate = 24000\<rparr> = 2"
  by (simp add: duration_def fl_two)

lemma duration_tenth:
  "duration \<lparr>buf_length = 2400, buf_sampleRate = 24000\<rparr> = 3602879701896397 / 36028797018963968"
  by (simp add: duration_def fl_tenth)

lemma duration_seven_tenths:
  "duration \<lparr>buf_length = 16800, buf_sampleRate = 24000\<rparr> = 3152519739159347 / 4503599627370496"
  by (simp add: duration_def fl_seven_tenths)

lemma clock_add_zero_two: "clock_add (Finite 0) 2 = Finite 2"
  by (simp add: clock_add_def fl_two)

lemma clock_add_two_one: "clock_add (Finite 2) 1 = Finite 3"
  by (simp add: clock_add_def fl_three)

lemma clock_add_zero_tenth:
  "clock_add (Finite 0) (3602879701896397 / 36028797018963968)
     = Finite (3602879701896397 / 36028797018963968)"
  by (simp add: clock_add_def fl_tenth_again)

lemma clock_add_tenth_seven_tenths:
  "clock_add (Finite (3602879701896397 / 36028797018963968)) (3152519739159347 / 4503599627370496)
     = Finite (7205759403792793 / 9007199254740992)"
  by (simp add: clock_add_def fl_tenth_plus_seven_tenths Let_def)

lemmas rounded = duration_one duration_two duration_tenth duration_seven_tenths
  clock_add_zero_two clock_add_two_one clock_add_zero_tenth clock_add_tenth_seven_tenths

text \<open>The log of the three buffers of a tenth, seven tenths and a tenth of a second.\<close>

lemma three_buffers_log:
  "playbackLog (run env_tenths three_buffers established) =
     [Started \<lparr>node_id = 0, buffer = \<lparr>buf_length = 2400, buf_sampleRate = 24000\<rparr>,
               started_at = 0\<rparr>,
      Started \<lparr>node_id = 1, buffer = \<lparr>buf_length = 16800, buf_sampleRate = 24000\<rparr>,
               started_at = 3602879701896397 / 36028797018963968\<rparr>,
      Started \<lparr>node_id = 2, buffer = \<lparr>buf_length = 2400, buf_sampleRate = 24000\<rparr>,
               started_at = 7205759403792793 / 9007199254740992\<rparr>]"
  by (simp add: three_buffers_def established_eq handler_defs message_defs env_tenths_def
      env0_def rounded)

lemma exact_sum_tenths:
  "(3602879701896397 / 36028797018963968 + 3152519739159347 / 4503599627370496 :: real)
     = 28823037615171173 / 36028797018963968"
  by simp

text \<open>
  C6, as stated, fails. The clock is advanced at line 77 by a binary64 addition, which
  rounds. Three buffers of 0.1 s, 0.7 s and 0.1 s are scheduled with no interruption while
  the device clock is at 0: the second starts at the binary64 value of 0.1 and lasts the
  binary64 value of 0.7; their sum is not a binary64 value and is rounded down, so the
  third buffer starts before the start plus the duration of the second.
\<close>

theorem playback_rounding_counterexample:
  "playbackLog (run env_tenths three_buffers established) =
     [Started \<lparr>node_id = 0, buffer = \<lparr>buf_length = 2400, buf_sampleRate = 24000\<rparr>,
               started_at = 0\<rparr>,
      Started \<lparr>node_id = 1, buffer = \<lparr>buf_length = 16800, buf_sampleRate = 24000\<rparr>,
               started_at = 3602879701896397 / 36028797018963968\<rparr>,
      Started \<lparr>node_id = 2, buffer = \<lparr>buf_length = 2400, buf_sampleRate = 24000\<rparr>,
               started_at = 7205759403792793 / 9007199254740992\<rparr>] \<and>
   exact_end \<lparr>node_id = 1, buffer = \<lparr>buf_length = 16800, buf_sampleRate = 24000\<rparr>,
               started_at = 3602879701896397 / 36028797018963968\<rparr>
     = 28823037615171173 / 36028797018963968 \<and>
   (7205759403792793 / 9007199254740992 :: real) < 28823037615171173 / 36028797018963968"
  by (simp add: three_buffers_log exact_end_def duration_seven_tenths)

text \<open>
  C6, amended. In every run of a mounted overlay, whatever the order in which messages
  arrive, decodings settle and other events come in between: when two sources are
  started one right after the other, with no interruption between the two starts, the
  second starts at or after the end that the code computed for the first, that is, the
  binary64 sum of its start and its duration that line 77 stored in the clock. (That sum
  can be below the exact start plus duration by its rounding error.)
\<close>

theorem playback_never_overlaps:
  assumes "Suc i < length (playbackLog (run env evs mounted))"
    and "playbackLog (run env evs mounted) ! i = Started a"
    and "playbackLog (run env evs mounted) ! Suc i = Started b"
  shows "clock_le (ends_at a) (Finite (started_at b))"
proof -
  have "in_order (run env evs mounted)"
    using in_order_mounted by (rule run_in_order)
  then have "chained (playbackLog (run env evs mounted))"
    by (simp add: in_order_def)
  from this assms show ?thesis by (rule chained_adjacent)
qed

theorem playback_never_overlaps_witness:
  "Suc 0 < length (playbackLog (run env0
      [GetUserMediaResolved, Onopen, SessionResolved,
       Message 0 (audio_message ''ab''), DecodeSettled 0,
       Message 1 (audio_message ''c''), DecodeSettled 0] mounted)) \<and>
   playbackLog (run env0
      [GetUserMediaResolved, Onopen, SessionResolved,
       Message 0 (audio_message ''ab''), DecodeSettled 0,
       Message 1 (audio_message ''c''), DecodeSettled 0] mounted) ! 0
     = Started \<lparr>node_id = 0, buffer = \<lparr>buf_length = 48000, buf_sampleRate = 24000\<rparr>,
                started_at = 0\<rparr> \<and>
   playbackLog (run env0
      [GetUserMediaResolved, Onopen, SessionResolved,
       Message 0 (audio_message ''ab''), DecodeSettled 0,
       Message 1 (audio_message ''c''), DecodeSettled 0] mounted) ! Suc 0
     = Started \<lparr>node_id = 1, buffer = \<lparr>buf_length = 24000, buf_sampleRate = 24000\<rparr>,
                started_at = 2\<rparr> \<and>
   ends_at \<lparr>node_id = 0, buffer = \<lparr>buf_length = 48000, buf_sampleRate = 24000\<rparr>,
            started_at = 0\<rparr> = Finite 2 \<and>
   clock_le
     (ends_at \<lparr>node_id = 0, buffer = \<lparr>buf_length = 48000, buf_sampleRate = 24000\<rparr>,
               started_at = 0\<rparr>)
     (Finite (started_at \<lparr>node_id = 1, buffer = \<lparr>buf_length = 24000, buf_sampleRate = 24000\<rparr>,
               started_at = 2\<rparr>))"
proof -
  let ?evs = "[GetUserMediaResolved, Onopen, SessionResolved,
       Message 0 (audio_message ''ab''), DecodeSettled 0,
       Message 1 (audio_message ''c''), DecodeSettled 0]"
  let ?b1 = "\<lparr>node_id = 0, buffer = \<lparr>buf_length = 48000, buf_sampleRate = 24000\<rparr>,
              started_at = (0::real)\<rparr>"
  let ?b2 = "\<lparr>node_id = 1, buffer = \<lparr>buf_length = 24000, buf_sampleRate = 24000\<rparr>,
              started_at = (2::real)\<rparr>"
  have plog: "playbackLog (run env0 ?evs mounted) = [Started ?b1, Started ?b2]"
    by (simp add: handler_defs message_defs env0_def rounded)
  have h: "Suc 0 < length (playbackLog (run env0 ?evs mounted))"
    "playbackLog (run env0 ?evs mounted) ! 0 = Started ?b1"
    "playbackLog (run env0 ?evs mounted) ! Suc 0 = Started ?b2"
    by (simp_all add: plog)
  have e: "ends_at ?b1 = Finite 2"
    by (simp add: ends_at_def rounded)
  show ?thesis
    using h e playback_never_overlaps [OF h] by simp
qed

subsection \<open>Gapless playback\<close>









subsection \<open>Interruption\<close>

text \<open>
  C3, as stated, fails. Line 88 sets \<open>nextStartTimeRef\<close> to 0, not to the current time of the
  output device: with one buffer playing and the device at time 2, handling an
  interrupted event leaves the clock at 0.
\<close>

theorem interrupt_clock_counterexample:
  "nextStartTimeRef
     (run env0 [Message 1 (audio_message ''ab''), DecodeSettled 0, Message 2 interrupted_message]
        established) = Finite 0 \<and>
   nextStartTimeRef
     (run env0 [Message 1 (audio_message ''ab''), DecodeSettled 0, Message 2 interrupted_message]
        established) \<noteq> Finite 2"
  by (simp add: established_eq handler_defs message_defs env0_def rounded)

text \<open>
  C3, amended. When a message handler reaches the interrupted event of its message, it stops
  every source that is in \<open>sourcesRef\<close> at that point, leaves \<open>sourcesRef\<close> empty and the
  status \<open>listening\<close>, and resets \<open>nextStartTimeRef\<close> to 0, not to the current time of the
  device. A handler reaches that point in one of two ways. When the message carries no
  audio to decode, an active session gets there in the call of the handler itself. When
  the message carries audio, the handler gets there after the decoding has settled and
  its source has been started: that source is then stopped with the others.
\<close>

theorem interrupt_flushes_playback:
  assumes "interrupts m"
  shows "(isActive st \<and> is_NoAudio (schedule_begin now m (append_transcripts m st)) \<longrightarrow>
            sourcesRef (onmessage_begin env now m st) = [] \<and>
            playbackLog (onmessage_begin env now m st) = playbackLog st @ [Stopped (sourcesRef st)] \<and>
            status (onmessage_begin env now m st) = Listening \<and>
            nextStartTimeRef (onmessage_begin env now m st) = Finite 0) \<and>
         (is_Done (schedule_resume env d st) \<longrightarrow>
            sourcesRef (onmessage_resume env m d st) = [] \<and>
            (\<exists>src. playbackLog (onmessage_resume env m d st)
                      = playbackLog st @ [Started src, Stopped (sourcesRef st @ [src])]) \<and>
            status (onmessage_resume env m d st) = Listening \<and>
            nextStartTimeRef (onmessage_resume env m d st) = Finite 0)"
proof (intro conjI impI)
  assume a: "isActive st \<and> is_NoAudio (schedule_begin now m (append_transcripts m st))"
  let ?a = "append_transcripts m st"
  from a obtain s where s: "schedule_begin now m ?a = NoAudio s"
    by (cases "schedule_begin now m ?a") simp_all
  then have same: "playbackLog s = playbackLog st" "sourcesRef s = sourcesRef st"
    using append_transcripts_frame [of st m] schedule_begin_frame [of ?a now m] by simp_all
  have r: "onmessage_begin env now m st = finish_message env m s"
    using a s by (simp add: onmessage_begin_def)
  from finish_message_playback [of m env s] assms same
  show "sourcesRef (onmessage_begin env now m st) = []"
    "playbackLog (onmessage_begin env now m st) = playbackLog st @ [Stopped (sourcesRef st)]"
    "status (onmessage_begin env now m st) = Listening"
    "nextStartTimeRef (onmessage_begin env now m st) = Finite 0"
    unfolding r by simp_all
next
  assume "is_Done (schedule_resume env d st)"
  then obtain s where s: "schedule_resume env d st = Done s"
    by (cases "schedule_resume env d st") simp_all
  then obtain src where src: "playbackLog s = playbackLog st @ [Started src]"
    "sourcesRef s = sourcesRef st @ [src]"
    using schedule_resume_Done by blast
  have r: "onmessage_resume env m d st = finish_message env m s"
    using s by (simp add: onmessage_resume_def)
  from finish_message_playback [of m env s] assms
  show "sourcesRef (onmessage_resume env m d st) = []"
    "status (onmessage_resume env m d st) = Listening"
    "nextStartTimeRef (onmessage_resume env m d st) = Finite 0"
    unfolding r by simp_all
  from finish_message_playback [of m env s] assms src
  have "playbackLog (onmessage_resume env m d st)
      = playbackLog st @ [Started src, Stopped (sourcesRef st @ [src])]"
    unfolding r by simp
  then show "\<exists>src. playbackLog (onmessage_resume env m d st)
      = playbackLog st @ [Started src, Stopped (sourcesRef st @ [src])]" ..
qed

theorem interrupt_flushes_playback_witness:
  "interrupts interrupted_message \<and>
   isActive (run env0 [Message 1 (audio_message ''ab''), DecodeSettled 0] established) \<and>
   is_NoAudio (schedule_begin 2 interrupted_message
     (append_transcripts interrupted_message
        (run env0 [Message 1 (audio_message ''ab''), DecodeSettled 0] established))) \<and>
   sourcesRef (run env0 [Message 1 (audio_message ''ab''), DecodeSettled 0] established)
     = [\<lparr>node_id = 0, buffer = \<lparr>buf_length = 48000, buf_sampleRate = 24000\<rparr>, started_at = 1\<rparr>] \<and>
   sourcesRef (onmessage_begin env0 2 interrupted_message
      (run env0 [Message 1 (audio_message ''ab''), DecodeSettled 0] established)) = [] \<and>
   playbackLog (onmessage_begin env0 2 interrupted_message
      (run env0 [Message 1 (audio_message ''ab''), DecodeSettled 0] established))
     = [Started \<lparr>node_id = 0, buffer = \<lparr>buf_length = 48000, buf_sampleRate = 24000\<rparr>, started_at = 1\<rparr>,
        Stopped [\<lparr>node_id = 0, buffer = \<lparr>buf_length = 48000, buf_sampleRate = 24000\<rparr>, started_at = 1\<rparr>]] \<and>
   nextStartTimeRef (onmessage_begin env0 2 interrupted_message
      (run env0 [Message 1 (audio_message ''ab''), DecodeSettled 0] established)) = Finite 0 \<and>
   is_Done (schedule_resume env0 ''c''
      (run env0 [Message 1 (audio_message ''ab''), DecodeSettled 0] established)) \<and>
   sourcesRef (onmessage_resume env0 interrupted_message ''c''
      (run env0 [Message 1 (audio_message ''ab''), DecodeSettled 0] established)) = [] \<and>
   nextStartTimeRef (onmessage_resume env0 interrupted_message ''c''
      (run env0 [Message 1 (audio_message ''ab''), DecodeSettled 0] established)) = Finite 0"
proof -
  let ?b1 = "\<lparr>node_id = 0, buffer = \<lparr>buf_length = 48000, buf_sampleRate = 24000\<rparr>,
              started_at = (1::real)\<rparr>"
  let ?playing = "run env0 [Message 1 (audio_message ''ab''), DecodeSettled 0] established"
  have clock: "clock_add (Finite 1) 2 = Finite 3"
    by (simp add: clock_add_def fl_three)
  have playing: "?playing = established\<lparr>status := Speaking,
      nextStartTimeRef := Finite 3,
      sourcesRef := [?b1], playbackLog := [Started ?b1], nodeCounter := 1\<rparr>"
    by (simp add: established_eq handler_defs message_defs env0_def rounded clock)
  have h: "interrupts interrupted_message"
    by (simp add: message_defs interrupts_def)
  have a: "isActive ?playing"
    "is_NoAudio (schedule_begin 2 interrupted_message
       (append_transcripts interrupted_message ?playing))"
    "sourcesRef ?playing = [?b1]" "playbackLog ?playing = [Started ?b1]"
    unfolding playing
    by (simp_all add: established_eq initial_def message_defs schedule_begin_def audioData_def
        append_transcripts_def)
  have d: "is_Done (schedule_resume env0 ''c'' ?playing)"
    unfolding playing
    by (simp add: schedule_resume_def env0_def startable_def Let_def)
  note flushed = interrupt_flushes_playback [OF h, of ?playing 2 env0 "''c''"]
  from h a d flushed show ?thesis by simp
qed

subsection \<open>Tool calls\<close>

lemma tool_responses_of_append:
  "tool_responses_of (cs @ map SendToolResponse rs) = tool_responses_of cs @ rs"
proof (induction cs rule: tool_responses_of.induct)
  case 1
  show ?case by (induction rs) simp_all
qed simp_all

lemma tool_responses_of_append_comp:
  "tool_responses_of (cs @ map (SendToolResponse \<circ> f) xs) = tool_responses_of cs @ map f xs"
  using tool_responses_of_append [of cs "map f xs"] by simp

lemma resolved_batch_responses:
  assumes "isActive st" and "sessionPromise st = Some Resolved"
    and "is_Done (schedule_audio env now m (append_transcripts m st))"
    and "toolCall m = Some (ToolCall (Some fcs))"
  shows "tool_responses (onmessage env now m st) = tool_responses st @ map ack (served env fcs)"
proof -
  have "answered st (onmessage env now m st) (map ack (served env fcs))"
    using onmessage_batch [OF assms(1,3,4)] by blast
  with assms(2) have "sessionCalls (onmessage env now m st)
      = sessionCalls st @ map SendToolResponse (map ack (served env fcs))"
    by (simp add: answered_def)
  then show ?thesis
    by (simp add: tool_responses_def tool_responses_of_append_comp)
qed

text \<open>
  C1, as stated, fails. The loop of lines 93 to 101 calls \<open>onCommand\<close> with nothing to
  catch what it throws. With the handler of \<open>App.tsx\<close>, the batch with the ids \<open>a\<close>, \<open>b\<close>, \<open>c\<close>
  whose second call is \<open>toggleSearch\<close> without arguments makes the handler throw on \<open>b\<close>:
  one response is sent, for \<open>a\<close>, and not three.
\<close>

theorem tool_batch_throw_counterexample:
  "onCommand env0 (fc_name call_b) (fc_args call_b) = Throws \<and>
   map fr_id (tool_responses
      (onmessage env0 0 (tool_call_message [call_a, call_b, call_c]) established)) = [''a''] \<and>
   length (tool_responses
      (onmessage env0 0 (tool_call_message [call_a, call_b, call_c]) established)) \<noteq> 3"
  by (simp add: established_eq handler_defs message_defs env0_def handleVoiceCommand_def
      call_a_def call_b_def call_c_def tool_responses_def)

text \<open>
  C1, amended. For an inbound tool-call batch handled by an active session whose promise
  has resolved (and whose audio, if the message carries any, decodes), one response is
  sent, in the order of the batch and with the id of its request, for each request that
  comes before the first request on which the host handler throws: for every request of
  the batch when the handler never throws. The request on which it throws and the requests
  after it get no response.
\<close>

theorem tool_calls_acknowledged_until_throw:
  assumes "isActive st" and "sessionPromise st = Some Resolved"
    and "is_Done (schedule_audio env now m (append_transcripts m st))"
    and "toolCall m = Some (ToolCall (Some fcs))"
  shows "tool_responses (onmessage env now m st) = tool_responses st @ map ack (served env fcs) \<and>
         map fr_id (map ack (served env fcs)) = map fc_id (served env fcs)"
  using resolved_batch_responses [OF assms] by (simp add: ack_def)

theorem tool_calls_acknowledged_until_throw_witness:
  "isActive established \<and> sessionPromise established = Some Resolved \<and>
   is_Done (schedule_audio env0 0 (tool_call_message [call_a, call_b_ok, call_c])
              (append_transcripts (tool_call_message [call_a, call_b_ok, call_c]) established)) \<and>
   toolCall (tool_call_message [call_a, call_b_ok, call_c])
     = Some (ToolCall (Some [call_a, call_b_ok, call_c])) \<and>
   served env0 [call_a, call_b_ok, call_c] = [call_a, call_b_ok, call_c] \<and>
   map fr_id (tool_responses
      (onmessage env0 0 (tool_call_message [call_a, call_b_ok, call_c]) established))
     = [''a'', ''b'', ''c'']"
proof -
  let ?m = "tool_call_message [call_a, call_b_ok, call_c]"
  have h: "isActive established" "sessionPromise established = Some Resolved"
    "is_Done (schedule_audio env0 0 ?m (append_transcripts ?m established))"
    "toolCall ?m = Some (ToolCall (Some [call_a, call_b_ok, call_c]))"
    by (simp_all add: established_eq initial_def message_defs schedule_audio_def
        schedule_begin_def audioData_def append_transcripts_def)
  have s: "served env0 [call_a, call_b_ok, call_c] = [call_a, call_b_ok, call_c]"
    by (simp add: served_def returns_on_def env0_def handleVoiceCommand_def
        call_a_def call_b_ok_def call_c_def)
  have t: "tool_responses established = []"
    by (simp add: established_eq initial_def tool_responses_def)
  show ?thesis
    using h s tool_calls_acknowledged_until_throw [OF h]
    by (simp add: t ack_def call_a_def call_b_ok_def call_c_def)
qed

text \<open>
  C10, as stated, fails. The claim says that the handler is called for every function call
  of a batch. The loop of lines 93 to 101 ends at the first call on which the handler
  throws: in the batch \<open>a\<close>, \<open>b\<close>, \<open>c\<close> with the handler of \<open>App.tsx\<close> throwing on \<open>b\<close>, the
  handler is called twice, and never with the name and arguments of \<open>c\<close>.
\<close>

theorem host_not_called_counterexample:
  "onCommand env0 (fc_name call_b) (fc_args call_b) = Throws \<and>
   commandCalls (onmessage env0 0 (tool_call_message [call_a, call_b, call_c]) established)
     = [(''createNewChat'', Some []), (''toggleSearch'', None)] \<and>
   length (commandCalls (onmessage env0 0 (tool_call_message [call_a, call_b, call_c]) established))
     \<noteq> 3"
  by (simp add: established_eq handler_defs message_defs env0_def handleVoiceCommand_def
      call_a_def call_b_def call_c_def)

text \<open>
  C10, amended. Let an active session handle a message with a tool-call batch, the audio
  of the message, if it has any, decoding. The host handler is called once, in order, with
  the name and the arguments of each call of the batch up to and including the first call on
  which it throws (of every call when it never throws), whatever the names are: nothing
  compares a name with the declared commands. When the promise has resolved, the responses
  sent are one for each call on which the handler returned before its first throw, each with
  the id and name of its call and the fixed result \<open>ok\<close>, which is not the value that the
  handler returned.
\<close>

theorem host_called_and_fixed_ack:
  assumes "isActive st"
    and "is_Done (schedule_audio env now m (append_transcripts m st))"
    and "toolCall m = Some (ToolCall (Some fcs))"
  shows "commandCalls (onmessage env now m st)
           = commandCalls st @ map (\<lambda>fc. (fc_name fc, fc_args fc)) (attempted env fcs) \<and>
         (sessionPromise st = Some Resolved \<longrightarrow>
            tool_responses (onmessage env now m st)
              = tool_responses st @
                map (\<lambda>fc. \<lparr>fr_id = fc_id fc, fr_name = fc_name fc, fr_result = ''ok''\<rparr>)
                  (served env fcs))"
proof -
  have names: "call_of = (\<lambda>fc. (fc_name fc, fc_args fc))"
    "ack = (\<lambda>fc. \<lparr>fr_id = fc_id fc, fr_name = fc_name fc, fr_result = ''ok''\<rparr>)"
    by (auto simp: call_of_def ack_def)
  have "commandCalls (onmessage env now m st) = commandCalls st @ map call_of (attempted env fcs)"
    using onmessage_batch [OF assms] by blast
  moreover have "tool_responses (onmessage env now m st) = tool_responses st @ map ack (served env fcs)"
    if "sessionPromise st = Some Resolved"
    using resolved_batch_responses [OF assms(1) that assms(2,3)] .
  ultimately show ?thesis by (simp add: names)
qed

theorem host_called_and_fixed_ack_witness:
  "isActive established \<and>
   is_Done (schedule_audio env0 0 (tool_call_message [call_a, call_undeclared, call_b, call_c])
      (append_transcripts (tool_call_message [call_a, call_undeclared, call_b, call_c]) established)) \<and>
   toolCall (tool_call_message [call_a, call_undeclared, call_b, call_c])
     = Some (ToolCall (Some [call_a, call_undeclared, call_b, call_c])) \<and>
   sessionPromise established = Some Resolved \<and>
   attempted env0 [call_a, call_undeclared, call_b, call_c] = [call_a, call_undeclared, call_b] \<and>
   served env0 [call_a, call_undeclared, call_b, call_c] = [call_a, call_undeclared] \<and>
   commandCalls (onmessage env0 0 (tool_call_message [call_a, call_undeclared, call_b, call_c])
      established)
     = [(''createNewChat'', Some []), (''deleteEverything'', Some []), (''toggleSearch'', None)] \<and>
   tool_responses (onmessage env0 0 (tool_call_message [call_a, call_undeclared, call_b, call_c])
      established)
     = [\<lparr>fr_id = ''a'', fr_name = ''createNewChat'', fr_result = ''ok''\<rparr>,
        \<lparr>fr_id = ''d'', fr_name = ''deleteEverything'', fr_result = ''ok''\<rparr>]"
proof -
  let ?fcs = "[call_a, call_undeclared, call_b, call_c]"
  let ?m = "tool_call_message ?fcs"
  have h: "isActive established"
    "is_Done (schedule_audio env0 0 ?m (append_transcripts ?m established))"
    "toolCall ?m = Some (ToolCall (Some ?fcs))"
    by (simp_all add: established_eq initial_def message_defs schedule_audio_def
        schedule_begin_def audioData_def append_transcripts_def)
  have r: "sessionPromise established = Some Resolved"
    by (simp add: established_eq initial_def)
  have s: "served env0 ?fcs = [call_a, call_undeclared]"
    "attempted env0 ?fcs = [call_a, call_undeclared, call_b]"
    by (simp_all add: attempted_def served_def returns_on_def env0_def handleVoiceCommand_def
        call_a_def call_b_def call_c_def call_undeclared_def)
  have t: "tool_responses established = []" "commandCalls established = []"
    by (simp_all add: established_eq initial_def tool_responses_def)
  show ?thesis
    using h r s host_called_and_fixed_ack [OF h]
    by (simp add: t call_a_def call_b_def call_c_def call_undeclared_def)
qed

subsection \<open>Closing before the handshake\<close>

lemma no_audio_in_tool_cbs: "\<not> list_ex is_audio_cb (map ThenSendTool rs)"
  by (induction rs) (simp_all add: is_audio_cb_def)

lemma no_audio_in_tool_calls: "\<not> list_ex is_audio_call (map SendToolResponse rs)"
  by (induction rs) (simp_all add: is_audio_call_def)

lemma take_1_append: "take 1 xs = [x] \<Longrightarrow> take 1 (xs @ ys) = [x]"
  by (cases xs) simp_all

text \<open>What the three invariants make of a step that only answers tool calls.\<close>

lemma answered_unresolved:
  assumes "unresolved st" and "answered st st' rs" and "untouched st st'"
  shows "unresolved st'"
proof (cases "sessionPromise st")
  case None
  with assms show ?thesis by (simp add: unresolved_def answered_def untouched_def)
next
  case (Some p)
  show ?thesis
  proof (cases p)
    case (Pending old)
    with Some assms have "take 1 (old @ map ThenSendTool rs) = [CloseIfInactive]"
      by (intro take_1_append) (simp add: unresolved_def)
    with Some Pending assms show ?thesis
      by (simp add: unresolved_def answered_def untouched_def)
  next
    case Resolved
    with Some assms show ?thesis by (simp add: unresolved_def)
  next
    case Rejected
    with Some assms show ?thesis by (simp add: unresolved_def answered_def untouched_def)
  qed
qed

lemma answered_no_capture:
  assumes "no_capture st" and "answered st st' rs" and "untouched st st'"
  shows "no_capture st'"
proof (cases "sessionPromise st")
  case None
  with assms show ?thesis by (simp add: no_capture_def answered_def untouched_def)
next
  case (Some p)
  show ?thesis
  proof (cases p)
    case (Pending old)
    with Some assms show ?thesis
      using no_audio_in_tool_cbs [of rs]
      by (simp add: no_capture_def answered_def untouched_def)
  next
    case Resolved
    with Some assms show ?thesis
      using no_audio_in_tool_calls [of rs]
      by (simp add: no_capture_def answered_def untouched_def)
  next
    case Rejected
    with Some assms show ?thesis by (simp add: no_capture_def answered_def untouched_def)
  qed
qed

lemma answered_closed_early:
  assumes "closed_early st" and "answered st st' rs" and "untouched st st'"
  shows "closed_early st'"
proof (cases "sessionPromise st")
  case None
  with assms show ?thesis by (simp add: closed_early_def answered_def untouched_def)
next
  case (Some p)
  show ?thesis
  proof (cases p)
    case (Pending old)
    with Some assms have "take 1 (old @ map ThenSendTool rs) = [CloseIfInactive]"
      by (intro take_1_append) (simp add: closed_early_def)
    with Some Pending assms show ?thesis
      by (simp add: closed_early_def answered_def untouched_def)
  next
    case Resolved
    with Some assms have "take 1 (sessionCalls st @ map SendToolResponse rs) = [SessionClose]"
      by (intro take_1_append) (simp add: closed_early_def)
    with Some Resolved assms show ?thesis
      by (simp add: closed_early_def answered_def untouched_def)
  next
    case Rejected
    with Some assms show ?thesis by (simp add: closed_early_def answered_def untouched_def)
  qed
qed

lemma message_steps_answer:
  assumes "ev = Message now m \<or> ev = DecodeSettled k"
  shows "\<exists>rs. answered st (step env ev st) rs \<and> untouched st (step env ev st)"
proof -
  from assms show ?thesis
  proof
    assume ev: "ev = Message now m"
    show ?thesis
    proof (cases "sessionPromise st = None")
      case True
      with ev show ?thesis using answered_refl [of st] untouched_refl [of st]
        by (auto simp: step_def)
    next
      case False
      with ev onmessage_begin_answered [of st env now m] onmessage_begin_frame [of st env now m]
      show ?thesis by (auto simp: step_def)
    qed
  next
    assume "ev = DecodeSettled k"
    with decode_settled_answered [of st env k] decode_settled_frame [of st env k]
    show ?thesis by (auto simp: step_def)
  qed
qed

text \<open>A frame handed to \<open>sessionPromise.then\<close> by line 49.\<close>

lemma onaudioprocess_unresolved:
  assumes "unresolved st"
  shows "unresolved (onaudioprocess env d st)"
proof (cases "sessionPromise st")
  case None
  with assms show ?thesis by (simp add: onaudioprocess_def promise_then_def)
next
  case (Some p)
  show ?thesis
  proof (cases p)
    case (Pending old)
    with Some assms have "take 1 (old @ [ThenSendAudio (createBlob env d)]) = [CloseIfInactive]"
      by (intro take_1_append) (simp add: unresolved_def)
    with Some Pending assms show ?thesis
      by (simp add: unresolved_def onaudioprocess_def promise_then_def)
  next
    case Resolved
    with Some assms show ?thesis by (simp add: unresolved_def)
  next
    case Rejected
    with Some assms show ?thesis by (simp add: onaudioprocess_def promise_then_def)
  qed
qed

lemma onaudioprocess_closed_early:
  assumes "closed_early st"
  shows "closed_early (onaudioprocess env d st)"
proof (cases "sessionPromise st")
  case None
  with assms show ?thesis by (simp add: onaudioprocess_def promise_then_def)
next
  case (Some p)
  show ?thesis
  proof (cases p)
    case (Pending old)
    with Some assms have "take 1 (old @ [ThenSendAudio (createBlob env d)]) = [CloseIfInactive]"
      by (intro take_1_append) (simp add: closed_early_def)
    with Some Pending assms show ?thesis
      by (simp add: closed_early_def onaudioprocess_def promise_then_def)
  next
    case Resolved
    with Some assms have
      "take 1 (sessionCalls st @ [SendRealtimeInput (createBlob env d)]) = [SessionClose]"
      by (intro take_1_append) (simp add: closed_early_def)
    with Some Resolved assms show ?thesis
      by (simp add: closed_early_def onaudioprocess_def promise_then_def run_cb_def)
  next
    case Rejected
    with Some assms show ?thesis by (simp add: onaudioprocess_def promise_then_def)
  qed
qed

text \<open>Before the promise resolves.\<close>

lemma unresolved_mounted: "unresolved mounted"
  by (simp add: unresolved_def mounted_def startSession_def initial_def)

lemma no_capture_mounted: "no_capture mounted"
  by (simp add: no_capture_def mounted_def startSession_def initial_def)

lemma step_unresolved:
  assumes "unresolved st" and "ev \<noteq> SessionResolved"
  shows "unresolved (step env ev st)"
proof (cases ev)
  case (Message now m)
  then obtain rs where "answered st (step env ev st) rs" "untouched st (step env ev st)"
    using message_steps_answer [of ev now m] by blast
  with assms(1) show ?thesis by (rule answered_unresolved)
next
  case (DecodeSettled k)
  then obtain rs where "answered st (step env ev st) rs" "untouched st (step env ev st)"
    using message_steps_answer [of ev _ _ k] by blast
  with assms(1) show ?thesis by (rule answered_unresolved)
next
  case (Onaudioprocess d)
  with assms(1) show ?thesis by (simp add: step_def onaudioprocess_unresolved)
next
  case (Onended src)
  with assms(1) show ?thesis
    by (auto simp: step_def onended_def Let_def unresolved_def
        split: option.splits promise_state.splits)
next
  case SessionResolved
  with assms(2) show ?thesis by simp
qed (use assms(1) in \<open>auto simp: step_def getUserMedia_resolved_def getUserMedia_rejected_def
       session_rejected_def onopen_def onerror_def onclose_def toggleMute_def cleanup_def
       unresolved_def split: option.splits promise_state.splits\<close>)

lemma run_unresolved:
  assumes "SessionResolved \<notin> set evs" and "unresolved st"
  shows "unresolved (run env evs st)"
  using assms
proof (induction evs arbitrary: st)
  case Nil
  then show ?case by (simp add: run_def)
next
  case (Cons ev evs)
  then have "unresolved (step env ev st)" by (intro step_unresolved) auto
  with Cons show ?case by (simp add: run_Cons)
qed

text \<open>As long as the transport has not opened, or once the session is inactive.\<close>

lemma session_resolved_no_capture:
  assumes "no_capture st"
  shows "no_capture (session_resolved st)"
proof (cases "\<exists>cbs. sessionPromise st = Some (Pending cbs)")
  case False
  then have "session_resolved st = st"
    by (auto simp: session_resolved_def split: option.splits promise_state.splits)
  with assms show ?thesis by simp
next
  case True
  then obtain cbs where cbs: "sessionPromise st = Some (Pending cbs)" by blast
  with assms have quiet: "\<not> list_ex is_audio_cb cbs" by (simp add: no_capture_def)
  let ?s0 = "st\<lparr>sessionPromise := Some Resolved\<rparr>"
  obtain new where new: "foldl (\<lambda>s cb. run_cb cb s) ?s0 cbs
      = ?s0\<lparr>sessionCalls := sessionCalls ?s0 @ new\<rparr>" "\<not> list_ex is_audio_call new"
    using foldl_run_cb_calls [of ?s0 cbs] quiet by auto
  have "session_resolved st = st\<lparr>sessionPromise := Some Resolved, sessionCalls := sessionCalls st @ new\<rparr>"
    using cbs new(1) by (simp add: session_resolved_def)
  with assms new(2) show ?thesis by (simp add: no_capture_def)
qed

lemma step_no_capture:
  assumes "no_capture st" and "ev \<noteq> Onopen \<or> \<not> isActive st"
  shows "no_capture (step env ev st)"
proof (cases ev)
  case (Message now m)
  then obtain rs where "answered st (step env ev st) rs" "untouched st (step env ev st)"
    using message_steps_answer [of ev now m] by blast
  with assms(1) show ?thesis by (rule answered_no_capture)
next
  case (DecodeSettled k)
  then obtain rs where "answered st (step env ev st) rs" "untouched st (step env ev st)"
    using message_steps_answer [of ev _ _ k] by blast
  with assms(1) show ?thesis by (rule answered_no_capture)
next
  case (Onaudioprocess d)
  with assms(1) show ?thesis by (simp add: step_def no_capture_def)
next
  case SessionResolved
  with assms(1) show ?thesis by (simp add: step_def session_resolved_no_capture)
next
  case Onopen
  with assms have "\<not> isActive st" by simp
  then have "onopen st = st" by (simp add: onopen_def)
  with assms(1) Onopen show ?thesis by (simp add: step_def)
next
  case (Onended src)
  with assms(1) show ?thesis
    by (auto simp: step_def onended_def Let_def no_capture_def
        split: option.splits promise_state.splits)
qed (use assms(1) in \<open>auto simp: step_def getUserMedia_resolved_def getUserMedia_rejected_def
       session_rejected_def onerror_def onclose_def toggleMute_def cleanup_def
       no_capture_def is_audio_cb_def split: option.splits promise_state.splits\<close>)

lemma run_no_capture_before_open:
  assumes "Onopen \<notin> set evs" and "no_capture st"
  shows "no_capture (run env evs st)"
  using assms
proof (induction evs arbitrary: st)
  case Nil
  then show ?case by (simp add: run_def)
next
  case (Cons ev evs)
  then have "no_capture (step env ev st)" by (intro step_no_capture) auto
  with Cons show ?case by (simp add: run_Cons)
qed

text \<open>After the cleanup.\<close>

lemma cleanup_closed_early: "unresolved st \<Longrightarrow> closed_early (cleanup st)"
  by (auto simp: unresolved_def closed_early_def cleanup_def
      split: option.splits promise_state.splits)

lemma cleanup_no_capture: "no_capture st \<Longrightarrow> no_capture (cleanup st)"
  by (auto simp: no_capture_def cleanup_def split: option.splits promise_state.splits)

lemma session_resolved_closed_early:
  assumes "closed_early st"
  shows "closed_early (session_resolved st)"
proof (cases "\<exists>cbs. sessionPromise st = Some (Pending cbs)")
  case False
  then have "session_resolved st = st"
    by (auto simp: session_resolved_def split: option.splits promise_state.splits)
  with assms show ?thesis by simp
next
  case True
  then obtain cbs where cbs: "sessionPromise st = Some (Pending cbs)" by blast
  with assms obtain rest where rest: "cbs = CloseIfInactive # rest"
    by (cases cbs) (simp_all add: closed_early_def)
  from assms cbs have facts: "\<not> isActive st" "sessionCalls st = []" "\<not> awaitingUserMedia st"
    by (auto simp: closed_early_def)
  let ?s0 = "st\<lparr>sessionPromise := Some Resolved\<rparr>"
  have first: "run_cb CloseIfInactive ?s0 = ?s0\<lparr>sessionCalls := [SessionClose]\<rparr>"
    using facts by (simp add: run_cb_def)
  obtain new where new: "foldl (\<lambda>s cb. run_cb cb s) (?s0\<lparr>sessionCalls := [SessionClose]\<rparr>) rest
      = ?s0\<lparr>sessionCalls := [SessionClose], sessionCalls := [SessionClose] @ new\<rparr>"
    using foldl_run_cb_calls [of "?s0\<lparr>sessionCalls := [SessionClose]\<rparr>" rest] by auto
  have "session_resolved st = st\<lparr>sessionPromise := Some Resolved, sessionCalls := SessionClose # new\<rparr>"
    using cbs rest first new by (simp add: session_resolved_def)
  with facts show ?thesis by (simp add: closed_early_def)
qed

lemma step_closed_early:
  assumes "closed_early st"
  shows "closed_early (step env ev st)"
proof (cases ev)
  case (Message now m)
  then obtain rs where "answered st (step env ev st) rs" "untouched st (step env ev st)"
    using message_steps_answer [of ev now m] by blast
  with assms show ?thesis by (rule answered_closed_early)
next
  case (DecodeSettled k)
  then obtain rs where "answered st (step env ev st) rs" "untouched st (step env ev st)"
    using message_steps_answer [of ev _ _ k] by blast
  with assms show ?thesis by (rule answered_closed_early)
next
  case SessionResolved
  with assms show ?thesis by (simp add: step_def session_resolved_closed_early)
next
  case Onopen
  from assms have "\<not> isActive st" by (simp add: closed_early_def)
  then have "onopen st = st" by (simp add: onopen_def)
  with assms Onopen show ?thesis by (simp add: step_def)
next
  case (Onended src)
  with assms show ?thesis
    by (auto simp: step_def onended_def Let_def closed_early_def
        split: option.splits promise_state.splits)
next
  case (Onaudioprocess d)
  with assms show ?thesis by (simp add: step_def onaudioprocess_closed_early)
qed (use assms in \<open>auto simp: step_def getUserMedia_resolved_def getUserMedia_rejected_def
       session_rejected_def onerror_def onclose_def toggleMute_def cleanup_def
       closed_early_def split: option.splits promise_state.splits\<close>)

lemma run_closed_early:
  "closed_early st \<Longrightarrow> closed_early (run env evs st)"
proof (induction evs arbitrary: st)
  case Nil
  then show ?case by (simp add: run_def)
next
  case (Cons ev evs)
  then show ?case by (simp add: run_Cons step_closed_early)
qed

lemma run_no_capture_inactive:
  "no_capture st \<Longrightarrow> closed_early st \<Longrightarrow> no_capture (run env evs st)"
proof (induction evs arbitrary: st)
  case Nil
  then show ?case by (simp add: run_def)
next
  case (Cons ev evs)
  from Cons.prems(2) have "\<not> isActive st" by (simp add: closed_early_def)
  with Cons.prems(1) have "no_capture (step env ev st)" by (intro step_no_capture) auto
  moreover from Cons.prems(2) have "closed_early (step env ev st)" by (rule step_closed_early)
  ultimately show ?case using Cons.IH by (simp add: run_Cons)
qed

text \<open>
  C8, as stated, fails. The transport's \<open>onopen\<close> callback installs the processor, and the
  handler of line 44 chains a send on the promise for every frame without looking at
  \<open>isActive\<close>. When the microphone is there, the transport opens, a frame is captured, the
  overlay is closed and only then the promise resolves, the close is the first call on
  the session and the send of that frame is the second.
\<close>

theorem deferred_close_counterexample:
  "SessionResolved \<notin> set [GetUserMediaResolved, Onopen, Onaudioprocess [0, 1]] \<and>
   sessionCalls (run env0 ([GetUserMediaResolved, Onopen, Onaudioprocess [0, 1]] @ Cleanup #
      [SessionResolved]) mounted)
     = [SessionClose, SendRealtimeInput (createBlob env0 [0, 1])] \<and>
   list_ex is_audio_call (sessionCalls (run env0
      ([GetUserMediaResolved, Onopen, Onaudioprocess [0, 1]] @ Cleanup # [SessionResolved]) mounted))"
  by (simp add: handler_defs is_audio_call_def)

text \<open>
  C8, amended. Take any run of a mounted overlay in which the cleanup comes before the
  session promise has resolved, whatever happens before and after it. As long as the
  promise has not resolved no call is made on the session, and once it has resolved the
  first call made on the session is its close. If the cleanup also comes before the
  transport's \<open>onopen\<close> callback, no audio frame is ever sent on the session.
\<close>

theorem deferred_close:
  assumes "SessionResolved \<notin> set pre"
  shows "(if sessionPromise (run env (pre @ Cleanup # post) mounted) = Some Resolved
          then take 1 (sessionCalls (run env (pre @ Cleanup # post) mounted)) = [SessionClose]
          else sessionCalls (run env (pre @ Cleanup # post) mounted) = []) \<and>
         (Onopen \<notin> set pre \<longrightarrow>
            \<not> list_ex is_audio_call (sessionCalls (run env (pre @ Cleanup # post) mounted)))"
proof -
  let ?before = "run env pre mounted"
  let ?closed = "step env Cleanup ?before"
  have final: "run env (pre @ Cleanup # post) mounted = run env post ?closed"
    by (simp add: run_append run_Cons)
  have "unresolved ?before"
    using assms unresolved_mounted by (rule run_unresolved)
  then have closed: "closed_early ?closed"
    by (simp add: step_def cleanup_closed_early)
  then have "closed_early (run env post ?closed)" by (rule run_closed_early)
  then have first: "if sessionPromise (run env post ?closed) = Some Resolved
      then take 1 (sessionCalls (run env post ?closed)) = [SessionClose]
      else sessionCalls (run env post ?closed) = []"
    by (auto simp: closed_early_def split: option.splits promise_state.splits)
  have "\<not> list_ex is_audio_call (sessionCalls (run env post ?closed))" if "Onopen \<notin> set pre"
  proof -
    have "no_capture ?before"
      using that no_capture_mounted by (rule run_no_capture_before_open)
    then have "no_capture ?closed" by (simp add: step_def cleanup_no_capture)
    then have "no_capture (run env post ?closed)"
      using closed by (rule run_no_capture_inactive)
    then show ?thesis by (simp add: no_capture_def)
  qed
  with first show ?thesis unfolding final by simp
qed

theorem deferred_close_witness:
  "SessionResolved \<notin> set [GetUserMediaResolved] \<and> Onopen \<notin> set [GetUserMediaResolved] \<and>
   sessionPromise (run env0 ([GetUserMediaResolved] @ Cleanup #
      [Onopen, SessionResolved, Onaudioprocess [0, 1]]) mounted) = Some Resolved \<and>
   sessionCalls (run env0 ([GetUserMediaResolved] @ Cleanup #
      [Onopen, SessionResolved, Onaudioprocess [0, 1]]) mounted) = [SessionClose] \<and>
   take 1 (sessionCalls (run env0 ([GetUserMediaResolved] @ Cleanup #
      [Onopen, SessionResolved, Onaudioprocess [0, 1]]) mounted)) = [SessionClose] \<and>
   \<not> list_ex is_audio_call (sessionCalls (run env0 ([GetUserMediaResolved] @ Cleanup #
      [Onopen, SessionResolved, Onaudioprocess [0, 1]]) mounted))"
proof -
  have h: "SessionResolved \<notin> set [GetUserMediaResolved]" by simp
  have o: "Onopen \<notin> set [GetUserMediaResolved]" by simp
  have r: "sessionPromise (run env0 ([GetUserMediaResolved] @ Cleanup #
      [Onopen, SessionResolved, Onaudioprocess [0, 1]]) mounted) = Some Resolved"
    "sessionCalls (run env0 ([GetUserMediaResolved] @ Cleanup #
      [Onopen, SessionResolved, Onaudioprocess [0, 1]]) mounted) = [SessionClose]"
    by (simp_all add: handler_defs)
  show ?thesis
    using h o r deferred_close [OF h, of env0 "[Onopen, SessionResolved, Onaudioprocess [0, 1]]"]
    by simp
qed

end
